theory Spec2Isabelle
  imports Complex_Main "HOL-Library.Multiset" "HOL-Library.Sublist"
    "HOL-Library.Code_Target_Numeral"
begin

section \<open>The page organizer of \<^verbatim>\<open>src/pdf.jsx\<close>\<close>

text \<open>
  The component \<^verbatim>\<open>PdfPageOrganizerFinal\<close> keeps its session in React state hooks:
  \<^verbatim>\<open>files\<close>, \<^verbatim>\<open>previews\<close>, \<^verbatim>\<open>deleteInput\<close>, \<^verbatim>\<open>loading\<close>, \<^verbatim>\<open>drag\<close> and \<^verbatim>\<open>downloadMode\<close>.
  Every handler is modelled as a function from the state before to the state after
  (a \<^verbatim>\<open>setX(updater)\<close> call applies the updater to the current value of \<^verbatim>\<open>X\<close>).
  A handler that can throw returns a sum, the failure on the left.

  The repository holds a second copy of the component in another source file (here
  \<^verbatim>\<open>part_000\<close>). It has the same text for \<^verbatim>\<open>handleFiles\<close>, \<^verbatim>\<open>toggleDelete\<close>,
  \<^verbatim>\<open>applyBulkDeleteAll\<close>, \<^verbatim>\<open>onDragEnd\<close> and the copy loop of the export; its
  \<^verbatim>\<open>processPDFs\<close> differs and is modelled separately below.
\<close>

subsection \<open>Data\<close>

text \<open>
  A page descriptor, as \<^verbatim>\<open>generate\<close> builds it:
  \<^verbatim>\<open>{ id: `${file.name}-page-${i}`, img: url, pageNo: i, deleted: false }\<close>.
  The field \<^verbatim>\<open>id\<close> is called \<open>id'\<close> here (\<open>id\<close> is the identity function of HOL).
  \<^verbatim>\<open>pageNo\<close> is the loop counter of \<^verbatim>\<open>generate\<close>, an integer.
\<close>

record page =
  id' :: string
  img :: string
  pageNo :: int
  deleted :: bool

text \<open>An entry of \<^verbatim>\<open>previews\<close>: the object \<^verbatim>\<open>{ pages: [...] }\<close>.\<close>

record preview =
  pages :: "page list"

text \<open>
  A \<^verbatim>\<open>File\<close> of the browser: its \<^verbatim>\<open>name\<close>, its declared media type \<^verbatim>\<open>type\<close>
  (here \<open>type'\<close>) and its bytes (what \<^verbatim>\<open>arrayBuffer()\<close> resolves to), of an
  arbitrary type \<open>'b\<close>.
\<close>

record 'b File =
  name :: string
  type' :: string
  bytes :: 'b

text \<open>The two values of \<^verbatim>\<open>downloadMode\<close>: \<^verbatim>\<open>"zip" | "single"\<close>.\<close>

datatype mode = Zip | Single

text \<open>
  The state of the component. \<^verbatim>\<open>previews\<close> is a JavaScript object used as a
  dictionary from file names to entries: a map.
\<close>

record 'b state =
  files :: "'b File list"
  previews :: "string \<rightharpoonup> preview"
  deleteInput :: string
  loading :: bool
  drag :: bool
  downloadMode :: mode

text \<open>
  What a handler can end with instead of a new state.
  \<^item> \<open>TypeError\<close>: a property read on \<^verbatim>\<open>undefined\<close> (\<^verbatim>\<open>prev[file].pages\<close> for a
    name that is no key of \<^verbatim>\<open>previews\<close>, \<^verbatim>\<open>srcPage.node\<close> in the codec for a
    page index out of range).
  \<^item> \<open>CodecError\<close>: a rejection of the document codec or of the archive builder
    (loading, saving, generating the archive).
  \<^item> \<open>UndefinedElement\<close>: the handler would store the value \<^verbatim>\<open>undefined\<close> as an
    element of a page list; the type \<open>page list\<close> has no such element.
  \<^item> \<open>RangeError\<close>: \<^verbatim>\<open>add\<close> on a \<^verbatim>\<open>Set\<close> that holds as many elements as the engine
    allows.
\<close>

datatype failure = TypeError | CodecError | UndefinedElement | RangeError

subsection \<open>Upload\<close>

text \<open>
  \<^verbatim>\<open>
  const handleFiles = (list) => {
    const pdfs = Array.from(list).filter((f) => f.type === "application/pdf");
    setFiles(pdfs);
  };
  \<close>
\<close>

definition handleFiles :: "'b File list \<Rightarrow> 'b state \<Rightarrow> 'b state" where
  "handleFiles list st =
     (let pdfs = filter (\<lambda>f. type' f = ''application/pdf'') list
      in st\<lparr>files := pdfs\<rparr>)"

subsection \<open>Toggle delete\<close>

text \<open>
  \<^verbatim>\<open>
  const toggleDelete = (file, pageNo) => {
    setPreviews((prev) => ({
      ...prev,
      [file]: {
        pages: prev[file].pages.map((p) =>
          p.pageNo === pageNo ? { ...p, deleted: !p.deleted } : p)
      }
    }));
  };
  \<close>
  \<^verbatim>\<open>prev[file].pages\<close> throws a TypeError when \<^verbatim>\<open>file\<close> is no key of \<^verbatim>\<open>prev\<close>.
\<close>

definition toggleDelete :: "string \<Rightarrow> int \<Rightarrow> 'b state \<Rightarrow> failure + 'b state" where
  "toggleDelete file pn st =
     (case previews st file of
        None \<Rightarrow> Inl TypeError
      | Some pv \<Rightarrow>
          Inr (st\<lparr>previews := (previews st)(file \<mapsto>
                 \<lparr>pages = map (\<lambda>p. if pageNo p = pn then p\<lparr>deleted := \<not> deleted p\<rparr> else p)
                           (pages pv)\<rparr>)\<rparr>))"

subsection \<open>Strings and numbers of JavaScript\<close>

text \<open>
  A string is the list of its code units; the theory covers the code units below 256.
  Of the white space and line terminators that \<^verbatim>\<open>trim\<close> and \<^verbatim>\<open>Number\<close> strip, these
  are below 256: TAB, LF, VT, FF, CR, SPACE and NBSP.
\<close>

definition isWhiteSpace :: "char \<Rightarrow> bool" where
  "isWhiteSpace c =
     (c = CHR 0x09 \<or> c = CHR 0x0A \<or> c = CHR 0x0B \<or> c = CHR 0x0C \<or> c = CHR 0x0D
      \<or> c = CHR 0x20 \<or> c = CHR 0xA0)"

definition trim :: "string \<Rightarrow> string" where
  "trim s = rev (dropWhile isWhiteSpace (rev (dropWhile isWhiteSpace s)))"

text \<open>
  \<^verbatim>\<open>s.split(c)\<close> for a separator of one character: the pieces between the
  separators, one more than there are separators.
\<close>

fun js_split :: "char \<Rightarrow> string \<Rightarrow> string list" where
  "js_split c [] = [[]]"
| "js_split c (x # xs) =
     (if x = c then [] # js_split c xs
      else (case js_split c xs of
              w # ws \<Rightarrow> (x # w) # ws
            | [] \<Rightarrow> [[x]]))"

definition js_includes :: "string \<Rightarrow> char \<Rightarrow> bool" where
  "js_includes s c = (c \<in> set s)"

text \<open>
  A Number of JavaScript is an IEEE 754 binary64 value: \<open>NaN\<close>, an infinity, or a
  finite double, here the rational number it stands for. Negative zero is identified
  with zero: \<^verbatim>\<open><=\<close>, \<^verbatim>\<open>++\<close> and the keys of a \<^verbatim>\<open>Set\<close> do not tell them apart.
\<close>

datatype jsnum = NaN | Fin rat | PosInf | NegInf

definition pow2 :: "int \<Rightarrow> rat" where
  "pow2 e = (if 0 \<le> e then 2 ^ nat e else 1 / 2 ^ nat (- e))"

definition pow10 :: "int \<Rightarrow> rat" where
  "pow10 e = (if 0 \<le> e then 10 ^ nat e else 1 / 10 ^ nat (- e))"

text \<open>The number of binary digits of a natural number.\<close>

fun bitLength :: "nat \<Rightarrow> nat" where
  "bitLength n = (if n = 0 then 0 else Suc (bitLength (n div 2)))"

declare bitLength.simps [simp del]

text \<open>The binary exponent of a positive rational \<open>a\<close>: the \<open>e\<close> with \<open>2^e \<le> a < 2^(e+1)\<close>.\<close>

definition log2floor :: "rat \<Rightarrow> int" where
  "log2floor a =
     (if 1 \<le> a then int (bitLength (nat \<lfloor>a\<rfloor>)) - 1
      else - int (bitLength (nat (\<lceil>1 / a\<rceil> - 1))))"

definition roundHalfEven :: "rat \<Rightarrow> int" where
  "roundHalfEven x =
     (let f = \<lfloor>x\<rfloor>; d = x - of_int f
      in if d < 1 / 2 then f
         else if 1 / 2 < d then f + 1
         else if even f then f else f + 1)"

text \<open>
  The double nearest to a rational number, ties to the even significand: a
  significand of 53 bits at the binary exponent of the number, exponents from
  \<open>-1022\<close> (below it the subnormal numbers, spaced \<open>2^-1074\<close>), and an infinity
  from \<open>2^1024\<close> on.
\<close>

definition toDouble :: "rat \<Rightarrow> jsnum" where
  "toDouble x =
     (if x = 0 then Fin 0
      else
        (let a = \<bar>x\<bar>;
             e = max (log2floor a) (- 1022);
             u = pow2 (e - 52);
             r = of_int (roundHalfEven (a / u)) * u
         in if 2 ^ 1024 \<le> r then (if x < 0 then NegInf else PosInf)
            else Fin (if x < 0 then - r else r)))"

text \<open>\<^verbatim>\<open>i++\<close> on a number: the double nearest to \<open>i + 1\<close>.\<close>

definition jsInc :: "jsnum \<Rightarrow> jsnum" where
  "jsInc i = (case i of Fin q \<Rightarrow> toDouble (q + 1) | _ \<Rightarrow> i)"

text \<open>\<^verbatim>\<open>x <= y\<close> on numbers: false when either side is \<open>NaN\<close>.\<close>

definition jsLe :: "jsnum \<Rightarrow> jsnum \<Rightarrow> bool" where
  "jsLe x y =
     (case (x, y) of
        (NaN, _) \<Rightarrow> False
      | (_, NaN) \<Rightarrow> False
      | (NegInf, _) \<Rightarrow> True
      | (_, PosInf) \<Rightarrow> True
      | (Fin p, Fin q) \<Rightarrow> p \<le> q
      | _ \<Rightarrow> False)"

definition isDigit :: "char \<Rightarrow> bool" where
  "isDigit c = (c \<in> set ''0123456789'')"

definition isDigits :: "string \<Rightarrow> bool" where
  "isDigits s = (s \<noteq> [] \<and> list_all isDigit s)"

definition digitVal :: "char \<Rightarrow> nat" where
  "digitVal c = of_char c - 48"

definition decimalValue :: "string \<Rightarrow> nat" where
  "decimalValue s = foldl (\<lambda>a c. 10 * a + digitVal c) 0 s"

definition stripSign :: "string \<Rightarrow> string" where
  "stripSign s =
     (case s of
        [] \<Rightarrow> []
      | c # cs \<Rightarrow> (if c = CHR ''+'' \<or> c = CHR ''-'' then cs else s))"

text \<open>
  The grammar \<^verbatim>\<open>StringNumericLiteral\<close> of ECMAScript, between the white space:
  \<^verbatim>\<open>
  StrDecimalLiteral :: (+ | -)? StrUnsignedDecimalLiteral
  StrUnsignedDecimalLiteral ::
      Infinity
      DecimalDigits . DecimalDigits? ExponentPart?
      . DecimalDigits ExponentPart?
      DecimalDigits ExponentPart?
  ExponentPart :: (e | E) (+ | -)? DecimalDigits
  NonDecimalIntegerLiteral :: 0 (b|B) BinaryDigits | 0 (o|O) OctalDigits | 0 (x|X) HexDigits
  \<close>
\<close>

definition isMantissa :: "string \<Rightarrow> bool" where
  "isMantissa m =
     (let a = takeWhile (\<lambda>c. c \<noteq> CHR ''.'') m;
          r = dropWhile (\<lambda>c. c \<noteq> CHR ''.'') m
      in case r of
           [] \<Rightarrow> isDigits a
         | _ # b \<Rightarrow> (isDigits a \<and> (b = [] \<or> isDigits b)) \<or> (a = [] \<and> isDigits b))"

definition isExponentPart :: "string \<Rightarrow> bool" where
  "isExponentPart ex = isDigits (stripSign ex)"

definition isDecimalLiteral :: "string \<Rightarrow> bool" where
  "isDecimalLiteral u =
     (let m = takeWhile (\<lambda>c. c \<noteq> CHR ''e'' \<and> c \<noteq> CHR ''E'') u;
          r = dropWhile (\<lambda>c. c \<noteq> CHR ''e'' \<and> c \<noteq> CHR ''E'') u
      in case r of
           [] \<Rightarrow> isMantissa m
         | _ # ex \<Rightarrow> isMantissa m \<and> isExponentPart ex)"

definition signedValue :: "string \<Rightarrow> int" where
  "signedValue ex =
     (case ex of
        [] \<Rightarrow> 0
      | c # cs \<Rightarrow>
          if c = CHR ''-'' then - int (decimalValue cs)
          else if c = CHR ''+'' then int (decimalValue cs)
          else int (decimalValue ex))"

text \<open>
  The mathematical value of an unsigned decimal literal: its digits, without the
  point, times the power of ten of its exponent less the number of digits after the
  point.
\<close>

definition decimalMV :: "string \<Rightarrow> rat" where
  "decimalMV u =
     (let m = takeWhile (\<lambda>c. c \<noteq> CHR ''e'' \<and> c \<noteq> CHR ''E'') u;
          r = dropWhile (\<lambda>c. c \<noteq> CHR ''e'' \<and> c \<noteq> CHR ''E'') u;
          a = takeWhile (\<lambda>c. c \<noteq> CHR ''.'') m;
          b = drop 1 (dropWhile (\<lambda>c. c \<noteq> CHR ''.'') m);
          x = signedValue (drop 1 r)
      in of_nat (decimalValue (a @ b)) * pow10 (x - int (length b)))"

definition radixDigitVal :: "char \<Rightarrow> nat" where
  "radixDigitVal c =
     (if c \<in> set ''0123456789'' then of_char c - 48
      else if c \<in> set ''abcdef'' then of_char c - 87
      else of_char c - 55)"

definition radixValue :: "nat \<Rightarrow> string \<Rightarrow> nat" where
  "radixValue b ds = foldl (\<lambda>a c. b * a + radixDigitVal c) 0 ds"

definition nonDecimalRadix :: "string \<Rightarrow> nat option" where
  "nonDecimalRadix t =
     (case t of
        z # p # ds \<Rightarrow>
          if z = CHR ''0'' \<and> ds \<noteq> [] then
            (if p \<in> set ''bB'' \<and> list_all (\<lambda>c. c \<in> set ''01'') ds then Some 2
             else if p \<in> set ''oO'' \<and> list_all (\<lambda>c. c \<in> set ''01234567'') ds then Some 8
             else if p \<in> set ''xX'' \<and> list_all (\<lambda>c. c \<in> set ''0123456789abcdefABCDEF'') ds
               then Some 16
             else None)
          else None
      | _ \<Rightarrow> None)"

text \<open>
  \<^verbatim>\<open>Number(s)\<close> of a string: white space is stripped; the empty string is \<open>0\<close>; a
  numeric literal is the double nearest to its value (as the engines round it);
  every other string is \<open>NaN\<close>.
\<close>

definition Number :: "string \<Rightarrow> jsnum" where
  "Number s =
     (let t = trim s in
      if t = [] then Fin 0
      else (case nonDecimalRadix t of
              Some b \<Rightarrow> toDouble (of_nat (radixValue b (drop 2 t)))
            | None \<Rightarrow>
                (let neg = (hd t = CHR ''-''); u = stripSign t in
                 if u = ''Infinity'' then (if neg then NegInf else PosInf)
                 else if isDecimalLiteral u
                   then toDouble (if neg then - decimalMV u else decimalMV u)
                 else NaN)))"

subsection \<open>Bulk delete\<close>

text \<open>
  A \<^verbatim>\<open>Set\<close> of numbers: its elements in insertion order. \<^verbatim>\<open>add\<close> and \<^verbatim>\<open>has\<close>
  compare with SameValueZero, under which \<open>NaN\<close> equals \<open>NaN\<close>. A \<^verbatim>\<open>Set\<close> of the V8
  engine holds at most \<open>2^24\<close> elements; \<^verbatim>\<open>add\<close> of one more throws a RangeError.
\<close>

definition setMaxSize :: nat where
  "setMaxSize = 2 ^ 24"

definition setAdd :: "jsnum \<Rightarrow> jsnum list \<Rightarrow> failure + jsnum list" where
  "setAdd x S =
     (if x \<in> set S then Inr S
      else if length S < setMaxSize then Inr (S @ [x])
      else Inl RangeError)"

definition setHas :: "jsnum list \<Rightarrow> jsnum \<Rightarrow> bool" where
  "setHas S x = (x \<in> set S)"

text \<open>
  \<^verbatim>\<open>for (let i = s; i <= e; i++) toDelete.add(i);\<close>
  The loop need not end: from \<open>2^53\<close> on, \<^verbatim>\<open>i++\<close> can leave \<open>i\<close> as it is. The result
  is \<open>None\<close> when it does not end, the RangeError of \<^verbatim>\<open>add\<close> when the set is full,
  and the set otherwise.
\<close>

partial_function (option) rangeLoop ::
  "jsnum \<Rightarrow> jsnum \<Rightarrow> jsnum list \<Rightarrow> (failure + jsnum list) option" where
  "rangeLoop i e S =
     (if jsLe i e then
        (case setAdd i S of
           Inl err \<Rightarrow> Some (Inl err)
         | Inr S' \<Rightarrow> rangeLoop (jsInc i) e S')
      else Some (Inr S))"

declare rangeLoop.simps [code]

text \<open>
  The body of \<^verbatim>\<open>ranges.forEach\<close>:
  \<^verbatim>\<open>
  if (r.includes("-")) {
    const [s, e] = r.split("-").map(Number);
    for (let i = s; i <= e; i++) toDelete.add(i);
  } else {
    toDelete.add(Number(r));
  }
  \<close>
\<close>

definition addTerm :: "string \<Rightarrow> jsnum list \<Rightarrow> (failure + jsnum list) option" where
  "addTerm r toDelete =
     (if js_includes r CHR ''-'' then
        (case map Number (js_split CHR ''-'' r) of
           s # e # _ \<Rightarrow> rangeLoop s e toDelete
         | _ \<Rightarrow> Some (Inr toDelete))
      else Some (setAdd (Number r) toDelete))"

fun forEachRange :: "string list \<Rightarrow> jsnum list \<Rightarrow> (failure + jsnum list) option" where
  "forEachRange [] toDelete = Some (Inr toDelete)"
| "forEachRange (r # rs) toDelete =
     (case addTerm r toDelete of
        None \<Rightarrow> None
      | Some (Inl e) \<Rightarrow> Some (Inl e)
      | Some (Inr toDelete') \<Rightarrow> forEachRange rs toDelete')"

text \<open>
  \<^verbatim>\<open>
  const applyBulkDeleteAll = () => {
    if (!deleteInput.trim()) return;
    const ranges = deleteInput.split(",");
    const toDelete = new Set();
    ranges.forEach((r) => { ... });
    setPreviews((prev) => {
      const updated = {};
      for (const file in prev) {
        updated[file] = {
          pages: prev[file].pages.map((p) => ({
            ...p, deleted: p.deleted || toDelete.has(p.pageNo) }))
        };
      }
      return updated;
    });
  };
  \<close>
  The result of the handler is \<open>None\<close> when it does not return, and otherwise the
  state it leaves and what it threw, if anything: a RangeError of \<^verbatim>\<open>add\<close> leaves the
  handler before \<^verbatim>\<open>setPreviews\<close>, with the state as it was. A page number is a
  counter of pages, an integer below \<open>2^53\<close>, and as such a double.
\<close>

definition parseRanges :: "string \<Rightarrow> (failure + jsnum list) option" where
  "parseRanges input = forEachRange (js_split CHR '','' input) []"

definition markDeleted :: "jsnum list \<Rightarrow> (string \<rightharpoonup> preview) \<Rightarrow> (string \<rightharpoonup> preview)" where
  "markDeleted toDelete prev =
     (\<lambda>file. case prev file of
        None \<Rightarrow> None
      | Some pv \<Rightarrow>
          Some \<lparr>pages = map (\<lambda>p. p\<lparr>deleted := deleted p
                                    \<or> setHas toDelete (Fin (of_int (pageNo p)))\<rparr>)
                          (pages pv)\<rparr>)"

definition applyBulkDeleteAll :: "'b state \<Rightarrow> ('b state \<times> failure option) option" where
  "applyBulkDeleteAll st =
     (if trim (deleteInput st) = [] then Some (st, None)
      else (case parseRanges (deleteInput st) of
              None \<Rightarrow> None
            | Some (Inl e) \<Rightarrow> Some (st, Some e)
            | Some (Inr toDelete) \<Rightarrow>
                Some (st\<lparr>previews := markDeleted toDelete (previews st)\<rparr>, None)))"

subsection \<open>Drag reorder\<close>

text \<open>
  \<^verbatim>\<open>array.findIndex(pred)\<close>: the first index whose element satisfies the predicate,
  \<open>-1\<close> when there is none.
\<close>

fun findIndex :: "('a \<Rightarrow> bool) \<Rightarrow> 'a list \<Rightarrow> int" where
  "findIndex P [] = - 1"
| "findIndex P (x # xs) =
     (if P x then 0
      else (let r = findIndex P xs in if r < 0 then - 1 else r + 1))"

text \<open>
  The start index of \<^verbatim>\<open>array.splice(start, ...)\<close> on an array of length \<open>len\<close>: a
  negative start counts from the end, and the result is clamped to \<open>0..len\<close>.
\<close>

definition spliceStart :: "nat \<Rightarrow> int \<Rightarrow> nat" where
  "spliceStart len start =
     (if start < 0 then nat (max (int len + start) 0) else min (nat start) len)"

text \<open>
  \<^verbatim>\<open>arrayMove\<close> of \<^verbatim>\<open>@dnd-kit/sortable\<close>:
  \<^verbatim>\<open>
  export function arrayMove(array, from, to) {
    const newArray = array.slice();
    newArray.splice(
      to < 0 ? newArray.length + to : to,
      0,
      newArray.splice(from, 1)[0]
    );
    return newArray;
  }
  \<close>
  The first argument of the outer \<^verbatim>\<open>splice\<close> is evaluated before the inner
  \<^verbatim>\<open>splice\<close> removes an element, so \<^verbatim>\<open>newArray.length\<close> there is the length of the
  whole array. When the inner \<^verbatim>\<open>splice\<close> removes nothing (the start is the length of
  the array), \<^verbatim>\<open>[0]\<close> of its result is \<^verbatim>\<open>undefined\<close>, which the outer \<^verbatim>\<open>splice\<close>
  would insert.
\<close>

definition arrayMove :: "'a list \<Rightarrow> int \<Rightarrow> int \<Rightarrow> failure + 'a list" where
  "arrayMove array from to =
     (let newArray = array;
          target = (if to < 0 then int (length newArray) + to else to);
          k = spliceStart (length newArray) from;
          removed = take 1 (drop k newArray);
          newArray1 = take k newArray @ drop (k + 1) newArray
      in case removed of
           [] \<Rightarrow> Inl UndefinedElement
         | x # _ \<Rightarrow>
             (let j = spliceStart (length newArray1) target
              in Inr (take j newArray1 @ [x] @ drop j newArray1)))"

text \<open>
  The drag event, as far as \<^verbatim>\<open>onDragEnd\<close> reads it: \<^verbatim>\<open>active.id\<close>, and \<^verbatim>\<open>over.id\<close>
  when \<^verbatim>\<open>over\<close> is not \<^verbatim>\<open>null\<close>.
\<close>

record dragEvent =
  active :: string
  over :: "string option"

text \<open>
  \<^verbatim>\<open>
  const onDragEnd = (file, event) => {
    const { active, over } = event;
    if (!over || active.id === over.id) return;
    setPreviews((prev) => {
      const pages = prev[file].pages;
      const oldIndex = pages.findIndex((p) => p.id === active.id);
      const newIndex = pages.findIndex((p) => p.id === over.id);
      return { ...prev, [file]: { pages: arrayMove(pages, oldIndex, newIndex) } };
    });
  };
  \<close>
\<close>

definition onDragEnd :: "string \<Rightarrow> dragEvent \<Rightarrow> 'b state \<Rightarrow> failure + 'b state" where
  "onDragEnd file event st =
     (case over event of
        None \<Rightarrow> Inr st
      | Some overId \<Rightarrow>
          if active event = overId then Inr st
          else (case previews st file of
                  None \<Rightarrow> Inl TypeError
                | Some pv \<Rightarrow>
                    (let oldIndex = findIndex (\<lambda>p. id' p = active event) (pages pv);
                         newIndex = findIndex (\<lambda>p. id' p = overId) (pages pv)
                     in case arrayMove (pages pv) oldIndex newIndex of
                          Inl e \<Rightarrow> Inl e
                        | Inr moved \<Rightarrow>
                            Inr (st\<lparr>previews := (previews st)(file \<mapsto> \<lparr>pages = moved\<rparr>)\<rparr>))))"

text \<open>A sequence of drags, each on its own document; the first failure ends it.\<close>

fun onDragEnds :: "(string \<times> dragEvent) list \<Rightarrow> 'b state \<Rightarrow> failure + 'b state" where
  "onDragEnds [] st = Inr st"
| "onDragEnds ((file, event) # rest) st =
     (case onDragEnd file event st of
        Inl e \<Rightarrow> Inl e
      | Inr st' \<Rightarrow> onDragEnds rest st')"

subsection \<open>Export\<close>

text \<open>
  A document of the codec (\<^verbatim>\<open>pdf-lib\<close>) is the list of its pages, of an arbitrary
  type \<open>'pg\<close>. \<^verbatim>\<open>PDFDocument.create()\<close> is the empty list and \<^verbatim>\<open>addPage\<close> appends.
  \<^verbatim>\<open>newDoc.copyPages(pdfDoc, [k])\<close> reads \<^verbatim>\<open>pdfDoc.getPages()[k].node\<close>: the page at
  the 0-based index \<open>k\<close>, and a TypeError when there is no such page.
\<close>

definition copyPages :: "'pg list \<Rightarrow> int \<Rightarrow> failure + 'pg" where
  "copyPages pdfDoc k =
     (if 0 \<le> k \<and> k < int (length pdfDoc) then Inr (pdfDoc ! nat k) else Inl TypeError)"

text \<open>
  \<^verbatim>\<open>
  for (const p of previews[file.name].pages) {
    if (p.deleted) continue;
    const [copied] = await newDoc.copyPages(pdfDoc, [p.pageNo - 1]);
    newDoc.addPage(copied);
  }
  \<close>
\<close>

fun copyLoop :: "'pg list \<Rightarrow> page list \<Rightarrow> 'pg list \<Rightarrow> failure + 'pg list" where
  "copyLoop pdfDoc [] newDoc = Inr newDoc"
| "copyLoop pdfDoc (p # ps) newDoc =
     (if deleted p then copyLoop pdfDoc ps newDoc
      else (case copyPages pdfDoc (pageNo p - 1) of
              Inl e \<Rightarrow> Inl e
            | Inr copied \<Rightarrow> copyLoop pdfDoc ps (newDoc @ [copied])))"

text \<open>
  The collaborators the export calls, as parameters: of the codec
  \<^verbatim>\<open>PDFDocument.load\<close>, the writing of a document to bytes and the blank page it makes,
  and of the archive builder (\<^verbatim>\<open>JSZip\<close>) the empty archive, \<^verbatim>\<open>zip.file(name, data)\<close>
  and \<^verbatim>\<open>zip.generateAsync\<close>. Loading, writing and generating can reject.
\<close>

record ('b, 'pg, 'z) codec =
  load :: "'b \<Rightarrow> failure + 'pg list"
  serialise :: "'pg list \<Rightarrow> failure + 'b"
  blankPage :: 'pg
  newZip :: 'z
  zipFile :: "string \<Rightarrow> 'b \<Rightarrow> 'z \<Rightarrow> 'z"
  generateAsync :: "'z \<Rightarrow> failure + 'b"

text \<open>
  \<^verbatim>\<open>newDoc.save()\<close> of \<^verbatim>\<open>pdf-lib\<close>, called with no options: with the default
  \<^verbatim>\<open>addDefaultPage: true\<close> it first runs
  \<^verbatim>\<open>if (addDefaultPage && this.getPageCount() === 0) this.addPage();\<close>
  and then writes the document.
\<close>

definition save :: "('b, 'pg, 'z) codec \<Rightarrow> 'pg list \<Rightarrow> failure + 'b" where
  "save c newDoc = serialise c (if newDoc = [] then [blankPage c] else newDoc)"

text \<open>A download the export triggers: the blob and the \<^verbatim>\<open>download\<close> name of the link.\<close>

record 'b download =
  downloadName :: string
  blob :: 'b

text \<open>
  The body of \<^verbatim>\<open>for (const file of files)\<close> up to \<^verbatim>\<open>fileName\<close>: the name and the
  bytes of the output document of one file.
\<close>

definition exportFile ::
  "('b, 'pg, 'z) codec \<Rightarrow> (string \<rightharpoonup> preview) \<Rightarrow> 'b File \<Rightarrow> failure + string \<times> 'b" where
  "exportFile c pvs file =
     (case load c (bytes file) of
        Inl e \<Rightarrow> Inl e
      | Inr pdfDoc \<Rightarrow>
          (case pvs (name file) of
             None \<Rightarrow> Inl TypeError
           | Some pv \<Rightarrow>
               (case copyLoop pdfDoc (pages pv) [] of
                  Inl e \<Rightarrow> Inl e
                | Inr newDoc \<Rightarrow>
                    (case save c newDoc of
                       Inl e \<Rightarrow> Inl e
                     | Inr pdfBytes \<Rightarrow> Inr (''modified-'' @ name file, pdfBytes)))))"

text \<open>
  The loop over the files. It carries the archive and the downloads triggered so
  far; a failure ends it, and what was downloaded before stays downloaded.
\<close>

fun fileLoop ::
  "('b, 'pg, 'z) codec \<Rightarrow> mode \<Rightarrow> (string \<rightharpoonup> preview) \<Rightarrow> 'b File list \<Rightarrow> 'z \<Rightarrow>
   'b download list \<Rightarrow> failure option \<times> 'z \<times> 'b download list" where
  "fileLoop c m pvs [] zip' ds = (None, zip', ds)"
| "fileLoop c m pvs (file # rest) zip' ds =
     (case exportFile c pvs file of
        Inl e \<Rightarrow> (Some e, zip', ds)
      | Inr (fileName, pdfBytes) \<Rightarrow>
          if m = Single
          then fileLoop c m pvs rest zip' (ds @ [\<lparr>downloadName = fileName, blob = pdfBytes\<rparr>])
          else fileLoop c m pvs rest (zipFile c fileName pdfBytes zip') ds)"

text \<open>The \<^verbatim>\<open>try\<close> block of \<^verbatim>\<open>processPDFs\<close>: the loop, then the archive in zip mode.\<close>

definition tryBlock ::
  "('b, 'pg, 'z) codec \<Rightarrow> mode \<Rightarrow> (string \<rightharpoonup> preview) \<Rightarrow> 'b File list \<Rightarrow>
   failure option \<times> 'b download list" where
  "tryBlock c m pvs fs =
     (case fileLoop c m pvs fs (newZip c) [] of
        (Some e, zip', ds) \<Rightarrow> (Some e, ds)
      | (None, zip', ds) \<Rightarrow>
          if m = Zip
          then (case generateAsync c zip' of
                  Inl e \<Rightarrow> (Some e, ds)
                | Inr b \<Rightarrow> (None, ds @ [\<lparr>downloadName = ''processed-pdfs.zip'', blob = b\<rparr>]))
          else (None, ds))"

text \<open>
  \<^verbatim>\<open>processPDFs\<close> of \<^verbatim>\<open>src/pdf.jsx\<close>:
  \<^verbatim>\<open>
  setLoading(true);
  try { ... } finally { setLoading(false); ... }
  \<close>
  The result is the state after, the downloads triggered, and the failure the
  promise rejects with, if any.
\<close>

definition processPDFs ::
  "('b, 'pg, 'z) codec \<Rightarrow> 'b state \<Rightarrow> 'b state \<times> 'b download list \<times> failure option" where
  "processPDFs c st =
     (let st1 = st\<lparr>loading := True\<rparr>;
          (err, ds) = tryBlock c (downloadMode st) (previews st) (files st)
      in (st1\<lparr>loading := False\<rparr>, ds, err))"

text \<open>
  \<^verbatim>\<open>processPDFs\<close> of the second copy (\<^verbatim>\<open>part_000\<close>):
  \<^verbatim>\<open>
  setLoading(true);
  const zip = new JSZip();
  for (const file of files) { ...; zip.file(`modified-${file.name}`, await newDoc.save()); }
  const blob = await zip.generateAsync({ type: "blob" });
  ...click();
  setLoading(false);
  \<close>
  It has no download mode (always the archive) and no \<^verbatim>\<open>try\<close>: \<^verbatim>\<open>setLoading(false)\<close>
  is the last statement, reached only when nothing before it throws.
\<close>

definition processPDFs_part_000 ::
  "('b, 'pg, 'z) codec \<Rightarrow> 'b state \<Rightarrow> 'b state \<times> 'b download list \<times> failure option" where
  "processPDFs_part_000 c st =
     (let st1 = st\<lparr>loading := True\<rparr>
      in case tryBlock c Zip (previews st) (files st) of
           (Some e, ds) \<Rightarrow> (st1, ds, Some e)
         | (None, ds) \<Rightarrow> (st1\<lparr>loading := False\<rparr>, ds, None))"

subsection \<open>The output document as the specification reads it\<close>

text \<open>
  The pages the specification gives the output of a document, for comparison with
  the export: the pages of the descriptors that are not deleted, in the order of the
  descriptor list, each the page of the source at the 0-based index \<open>pageNo - 1\<close>.
\<close>

definition spec_output_pages :: "'pg list \<Rightarrow> page list \<Rightarrow> 'pg list" where
  "spec_output_pages pdfDoc ps =
     map (\<lambda>p. pdfDoc ! nat (pageNo p - 1)) (filter (\<lambda>p. \<not> deleted p) ps)"

subsection \<open>What the terms of a range expression stand for\<close>

text \<open>
  The numbers the loop \<^verbatim>\<open>for (let i = s; i <= e; i++)\<close> passes through: \<open>s\<close> when
  \<^verbatim>\<open>s <= e\<close>, and after a number the next one while it is \<^verbatim>\<open><= e\<close>.
\<close>

inductive_set loopValues :: "jsnum \<Rightarrow> jsnum \<Rightarrow> jsnum set" for s e where
  first: "jsLe s e \<Longrightarrow> s \<in> loopValues s e"
| succ: "x \<in> loopValues s e \<Longrightarrow> jsLe (jsInc x) e \<Longrightarrow> jsInc x \<in> loopValues s e"

text \<open>
  The numbers a term yields: a term without \<^verbatim>\<open>-\<close> its conversion, a term with \<^verbatim>\<open>-\<close>
  the numbers of the loop between the conversions of the text before its first \<^verbatim>\<open>-\<close>
  and of the text from there to its second \<^verbatim>\<open>-\<close> (or to its end).
\<close>

definition termNumbers :: "string \<Rightarrow> jsnum set" where
  "termNumbers r =
     (if js_includes r CHR ''-'' then
        (case map Number (js_split CHR ''-'' r) of
           s # e # _ \<Rightarrow> loopValues s e
         | _ \<Rightarrow> {})
      else {Number r})"

text \<open>
  The specification's reading of a term, for comparison: a term is well formed when
  it is a single integer (a run of decimal digits) or an inclusive range
  \<^verbatim>\<open>start-end\<close> of two integers, white space around an integer ignored; a single
  positive integer denotes itself, a range denotes the integers from start to end
  (none when the range is reversed), and every other term denotes nothing.
\<close>

definition spec_term_pages :: "string \<Rightarrow> int set" where
  "spec_term_pages t =
     (if isDigits (trim t)
      then (if 0 < decimalValue (trim t) then {int (decimalValue (trim t))} else {})
      else (case js_split CHR ''-'' t of
              [a, b] \<Rightarrow>
                if isDigits (trim a) \<and> isDigits (trim b)
                then {int (decimalValue (trim a)) .. int (decimalValue (trim b))}
                else {}
            | _ \<Rightarrow> {}))"

definition spec_delete_set :: "string \<Rightarrow> int set" where
  "spec_delete_set input = (\<Union>t \<in> set (js_split CHR '','' input). spec_term_pages t)"

text \<open>
  A well-formed term whose integers are below \<^verbatim>\<open>Number.MAX_SAFE_INTEGER\<close>, which is
  \<open>2^53 - 1\<close>.
\<close>

definition spec_well_formed :: "string \<Rightarrow> bool" where
  "spec_well_formed t =
     (if isDigits (trim t) then int (decimalValue (trim t)) < 2 ^ 53 - 1
      else (case js_split CHR ''-'' t of
              [a, b] \<Rightarrow>
                isDigits (trim a) \<and> isDigits (trim b)
                \<and> int (decimalValue (trim a)) < 2 ^ 53 - 1
                \<and> int (decimalValue (trim b)) < 2 ^ 53 - 1
            | _ \<Rightarrow> False))"

text \<open>
  A term that is not numeric where the handler reads it: without \<^verbatim>\<open>-\<close>, the term
  itself converts to \<open>NaN\<close>; with \<^verbatim>\<open>-\<close>, the text before the first \<^verbatim>\<open>-\<close> or the text
  from there to the second does.
\<close>

definition non_numeric :: "string \<Rightarrow> bool" where
  "non_numeric t =
     (if js_includes t CHR ''-'' then
        (case map Number (js_split CHR ''-'' t) of
           s # e # _ \<Rightarrow> s = NaN \<or> e = NaN
         | _ \<Rightarrow> False)
      else Number t = NaN)"

text \<open>
  A term on which the loop of the handler surely ends: it has no \<^verbatim>\<open>-\<close>, or its loop
  does not start, or its loop runs between finite numbers from \<open>-2^53\<close> to below
  \<open>2^53 - 1\<close>.
\<close>

definition loop_bounded :: "jsnum \<Rightarrow> jsnum \<Rightarrow> bool" where
  "loop_bounded s e =
     (case (s, e) of
        (Fin a, Fin b) \<Rightarrow> b < a \<or> (- (2 ^ 53) \<le> a \<and> b < 2 ^ 53 - 1)
      | _ \<Rightarrow> \<not> jsLe s e)"

definition bounded_term :: "string \<Rightarrow> bool" where
  "bounded_term t =
     (if js_includes t CHR ''-'' then
        (case map Number (js_split CHR ''-'' t) of
           s # e # _ \<Rightarrow> loop_bounded s e
         | _ \<Rightarrow> True)
      else True)"

lemmas number_defs =
  Number_def trim_def isWhiteSpace_def isDigits_def isDigit_def stripSign_def
  decimalValue_def digitVal_def isDecimalLiteral_def isMantissa_def isExponentPart_def
  nonDecimalRadix_def decimalMV_def signedValue_def pow10_def

subsection \<open>A session to run the handlers on\<close>

text \<open>
  One uploaded document \<^verbatim>\<open>a.pdf\<close> of three pages, with the descriptors \<^verbatim>\<open>generate\<close>
  builds for it. For the runs below the bytes of a document are the list of its page
  contents, the codec that succeeds loads and saves them as they are, and the
  archive is the list of its entries.
\<close>

definition demo_p1 :: page where
  "demo_p1 = \<lparr>id' = ''a.pdf-page-1'', img = ''blob:1'', pageNo = 1, deleted = False\<rparr>"

definition demo_p2 :: page where
  "demo_p2 = \<lparr>id' = ''a.pdf-page-2'', img = ''blob:2'', pageNo = 2, deleted = False\<rparr>"

definition demo_p3 :: page where
  "demo_p3 = \<lparr>id' = ''a.pdf-page-3'', img = ''blob:3'', pageNo = 3, deleted = False\<rparr>"

definition demo_file :: "string list File" where
  "demo_file = \<lparr>name = ''a.pdf'', type' = ''application/pdf'', bytes = [''A'', ''B'', ''C'']\<rparr>"

definition demo_state :: "string list state" where
  "demo_state =
     \<lparr>files = [demo_file],
      previews = [''a.pdf'' \<mapsto> \<lparr>pages = [demo_p1, demo_p2, demo_p3]\<rparr>],
      deleteInput = [], loading = False, drag = False, downloadMode = Zip\<rparr>"

definition demo_codec :: "(string list, string, (string \<times> string list) list) codec" where
  "demo_codec =
     \<lparr>load = Inr, serialise = Inr, blankPage = ''blank'', newZip = [],
      zipFile = (\<lambda>n d z. z @ [(n, d)]),
      generateAsync = (\<lambda>z. Inr (concat (map snd z)))\<rparr>"

text \<open>The same codec for a document it cannot load (encrypted, or damaged).\<close>

definition demo_codec_rejecting :: "(string list, string, (string \<times> string list) list) codec" where
  "demo_codec_rejecting = demo_codec\<lparr>load := (\<lambda>b. Inl CodecError)\<rparr>"

lemmas demo_defs =
  demo_p1_def demo_p2_def demo_p3_def demo_file_def demo_state_def demo_codec_def
  demo_codec_rejecting_def

section \<open>Upload keeps exactly the PDF blobs\<close>

text \<open>
  C9. For every batch, the files of the session after \<open>handleFiles\<close> are exactly
  the blobs of the batch whose declared media type is \<^verbatim>\<open>application/pdf\<close>: each such
  blob is kept as often as it occurs, every other blob is dropped, the kept blobs
  stand in their order in the batch, and a batch with no such blob gives no file.
  No other part of the state changes.
\<close>

theorem handleFiles_accepts_pdfs:
  "mset (files (handleFiles list st)) = filter_mset (\<lambda>f. type' f = ''application/pdf'') (mset list)
   \<and> subseq (files (handleFiles list st)) list
   \<and> ((\<forall>f \<in> set list. type' f \<noteq> ''application/pdf'') \<longrightarrow> files (handleFiles list st) = [])
   \<and> handleFiles list st = st\<lparr>files := files (handleFiles list st)\<rparr>"
  by (simp add: handleFiles_def)

theorem handleFiles_accepts_pdfs_witness:
  "files (handleFiles
      [\<lparr>name = ''a.pdf'', type' = ''application/pdf'', bytes = (1::nat)\<rparr>,
       \<lparr>name = ''b.txt'', type' = ''text/plain'', bytes = 2\<rparr>,
       \<lparr>name = ''c.pdf'', type' = ''application/pdf'', bytes = 3\<rparr>]
      \<lparr>files = [], previews = Map.empty, deleteInput = [], loading = False,
       drag = False, downloadMode = Zip\<rparr>)
   = [\<lparr>name = ''a.pdf'', type' = ''application/pdf'', bytes = 1\<rparr>,
      \<lparr>name = ''c.pdf'', type' = ''application/pdf'', bytes = 3\<rparr>]
   \<and> files (handleFiles [\<lparr>name = ''b.txt'', type' = ''text/plain'', bytes = (2::nat)\<rparr>]
      \<lparr>files = [], previews = Map.empty, deleteInput = [], loading = False,
       drag = False, downloadMode = Zip\<rparr>) = []"
  using handleFiles_accepts_pdfs
    [of "[\<lparr>name = ''b.txt'', type' = ''text/plain'', bytes = (2::nat)\<rparr>]"
        "\<lparr>files = [], previews = Map.empty, deleteInput = [], loading = False,
          drag = False, downloadMode = Zip\<rparr>"]
  by (simp add: handleFiles_def)

section \<open>Export\<close>

lemma copyLoop_in_range:
  "(\<forall>p \<in> set ps. \<not> deleted p \<longrightarrow> 1 \<le> pageNo p \<and> pageNo p \<le> int (length pdfDoc)) \<Longrightarrow>
   copyLoop pdfDoc ps newDoc = Inr (newDoc @ spec_output_pages pdfDoc ps)"
  by (induction ps arbitrary: newDoc) (auto simp: copyPages_def spec_output_pages_def)

lemma copyLoop_out_of_range:
  "\<exists>p \<in> set ps. \<not> deleted p \<and> \<not> (1 \<le> pageNo p \<and> pageNo p \<le> int (length pdfDoc)) \<Longrightarrow>
   copyLoop pdfDoc ps newDoc = Inl TypeError"
proof (induction ps arbitrary: newDoc)
  case Nil
  then show ?case by simp
next
  case (Cons q qs)
  show ?case
  proof (cases "deleted q")
    case True
    with Cons show ?thesis by auto
  next
    case False
    show ?thesis
    proof (cases "1 \<le> pageNo q \<and> pageNo q \<le> int (length pdfDoc)")
      case True
      with False Cons.prems
      have "\<exists>p \<in> set qs. \<not> deleted p \<and> \<not> (1 \<le> pageNo p \<and> pageNo p \<le> int (length pdfDoc))"
        by auto
      from Cons.IH[OF this] True False show ?thesis by (simp add: copyPages_def)
    next
      case outside: False
      with False show ?thesis by (auto simp: copyPages_def)
    qed
  qed
qed

lemma spec_output_pages_empty:
  "(spec_output_pages pdfDoc ps = []) = list_all deleted ps"
  by (auto simp: spec_output_pages_def filter_empty_conv list_all_iff)

lemma spec_output_pages_length:
  "length (spec_output_pages pdfDoc ps) = length (filter (\<lambda>p. \<not> deleted p) ps)"
  by (simp add: spec_output_pages_def)

lemma exportFile_loaded:
  assumes "load c (bytes g) = Inr pdfDoc" and "pvs (name g) = Some pv"
  shows "exportFile c pvs g =
    (if \<forall>p \<in> set (pages pv). \<not> deleted p \<longrightarrow> 1 \<le> pageNo p \<and> pageNo p \<le> int (length pdfDoc)
     then (case serialise c (if list_all deleted (pages pv) then [blankPage c]
                             else spec_output_pages pdfDoc (pages pv)) of
             Inl e \<Rightarrow> Inl e
           | Inr pdfBytes \<Rightarrow> Inr (''modified-'' @ name g, pdfBytes))
     else Inl TypeError)"
proof (cases "\<forall>p \<in> set (pages pv). \<not> deleted p \<longrightarrow> 1 \<le> pageNo p \<and> pageNo p \<le> int (length pdfDoc)")
  case True
  from copyLoop_in_range[OF True, of "[]"] assms True show ?thesis
    by (simp add: exportFile_def save_def spec_output_pages_empty)
next
  case False
  then have "\<exists>p \<in> set (pages pv). \<not> deleted p \<and> \<not> (1 \<le> pageNo p \<and> pageNo p \<le> int (length pdfDoc))"
    by blast
  from copyLoop_out_of_range[OF this, of "[]"] assms False show ?thesis
    by (simp add: exportFile_def del: bex_simps ball_simps)
qed

lemma fileLoop_entries:
  "map (exportFile c pvs) fs = map Inr entries \<Longrightarrow>
   fileLoop c m pvs fs zip' ds =
     (None,
      (if m = Single then zip' else foldl (\<lambda>a (n, b). zipFile c n b a) zip' entries),
      (if m = Single then ds @ map (\<lambda>(n, b). \<lparr>downloadName = n, blob = b\<rparr>) entries else ds))"
proof (induction fs arbitrary: entries zip' ds)
  case Nil
  then show ?case by simp
next
  case (Cons g gs)
  then obtain x xs where e: "entries = x # xs" and x: "exportFile c pvs g = Inr x"
    and xs: "map (exportFile c pvs) gs = map Inr xs"
    by (cases entries) auto
  obtain n b where nb: "x = (n, b)" by (cases x)
  show ?case
  proof (cases "m = Single")
    case True
    with Cons.IH[OF xs, of zip' "ds @ [\<lparr>downloadName = n, blob = b\<rparr>]"]
    show ?thesis by (simp add: e x nb)
  next
    case False
    with Cons.IH[OF xs, of "zipFile c n b zip'" ds]
    show ?thesis by (simp add: e x nb)
  qed
qed

lemma fileLoop_None:
  "fst (fileLoop c m pvs fs zip' ds) = None \<Longrightarrow>
   \<exists>entries. map (exportFile c pvs) fs = map Inr entries"
proof (induction fs arbitrary: zip' ds)
  case Nil
  then show ?case by simp
next
  case (Cons g gs)
  show ?case
  proof (cases "exportFile c pvs g")
    case (Inl e)
    with Cons.prems show ?thesis by simp
  next
    case (Inr x)
    obtain n b where nb: "x = (n, b)" by (cases x)
    from Cons.prems Inr nb
    have "\<exists>z d. fst (fileLoop c m pvs gs z d) = None" by (auto split: if_splits)
    then obtain z d where "fst (fileLoop c m pvs gs z d) = None" by blast
    from Cons.IH[OF this] obtain xs where "map (exportFile c pvs) gs = map Inr xs" by blast
    with Inr have "map (exportFile c pvs) (g # gs) = map Inr (x # xs)" by simp
    then show ?thesis by blast
  qed
qed

lemma processPDFs_entries:
  assumes "map (exportFile c (previews st)) (files st) = map Inr entries"
  shows "processPDFs c st =
     (st\<lparr>loading := False\<rparr>,
      (case downloadMode st of
         Single \<Rightarrow> map (\<lambda>(n, b). \<lparr>downloadName = n, blob = b\<rparr>) entries
       | Zip \<Rightarrow>
           (case generateAsync c (foldl (\<lambda>a (n, b). zipFile c n b a) (newZip c) entries) of
              Inl e \<Rightarrow> []
            | Inr z \<Rightarrow> [\<lparr>downloadName = ''processed-pdfs.zip'', blob = z\<rparr>])),
      (case downloadMode st of
         Single \<Rightarrow> None
       | Zip \<Rightarrow>
           (case generateAsync c (foldl (\<lambda>a (n, b). zipFile c n b a) (newZip c) entries) of
              Inl e \<Rightarrow> Some e
            | Inr z \<Rightarrow> None)))"
  using fileLoop_entries[OF assms, of "downloadMode st" "newZip c" "[]"]
  by (cases "downloadMode st")
     (simp_all add: processPDFs_def tryBlock_def Let_def split: sum.splits)

lemma processPDFs_None:
  assumes "processPDFs c st = (st', ds, None)"
  shows "\<exists>entries. map (exportFile c (previews st)) (files st) = map Inr entries"
proof -
  have "fst (fileLoop c (downloadMode st) (previews st) (files st) (newZip c) []) = None"
    using assms
    by (auto simp: processPDFs_def tryBlock_def Let_def split: prod.splits option.splits
        if_splits sum.splits)
  then show ?thesis by (rule fileLoop_None)
qed

text \<open>
  C1, as the code has it. The export delivers exactly the documents \<open>exportFile\<close>
  makes of the files, in the order of the files: when every file is exported, each
  document is downloaded under its name (single mode) or put into the archive that
  is then downloaded (zip mode), and the export ends without a failure only when
  every file was exported. For a file the codec loads and that has an entry in
  \<^verbatim>\<open>previews\<close>, with every descriptor that is not deleted having a \<open>pageNo\<close> from 1 to
  the page count of the source, the document written holds exactly the pages of the
  descriptors that are not deleted, in the order of the descriptor list, the page of
  a descriptor being the source page at the 0-based index \<open>pageNo - 1\<close>, when at
  least one descriptor is not deleted; when all are deleted it holds the one blank
  page that \<^verbatim>\<open>save\<close> adds to an empty document. With a \<open>pageNo\<close> outside the source
  on a descriptor that is not deleted the copy throws a TypeError.
\<close>

theorem processPDFs_exports_pages_in_descriptor_order:
  "(\<forall>entries.
      map (exportFile (c :: ('b, 'pg, 'z) codec) (previews st)) (files st) = map Inr entries \<longrightarrow>
      processPDFs c st =
        (st\<lparr>loading := False\<rparr>,
         (case downloadMode st of
            Single \<Rightarrow> map (\<lambda>(n, b). \<lparr>downloadName = n, blob = b\<rparr>) entries
          | Zip \<Rightarrow>
              (case generateAsync c (foldl (\<lambda>a (n, b). zipFile c n b a) (newZip c) entries) of
                 Inl e \<Rightarrow> []
               | Inr z \<Rightarrow> [\<lparr>downloadName = ''processed-pdfs.zip'', blob = z\<rparr>])),
         (case downloadMode st of
            Single \<Rightarrow> None
          | Zip \<Rightarrow>
              (case generateAsync c (foldl (\<lambda>a (n, b). zipFile c n b a) (newZip c) entries) of
                 Inl e \<Rightarrow> Some e
               | Inr z \<Rightarrow> None))))
   \<and> (\<forall>st' ds. processPDFs c st = (st', ds, None) \<longrightarrow>
         (\<exists>entries. map (exportFile c (previews st)) (files st) = map Inr entries))
   \<and> (\<forall>f pdfDoc pv. load c (bytes f) = Inr pdfDoc \<and> previews st (name f) = Some pv \<longrightarrow>
         exportFile c (previews st) f =
           (if \<forall>p \<in> set (pages pv). \<not> deleted p
                  \<longrightarrow> 1 \<le> pageNo p \<and> pageNo p \<le> int (length pdfDoc)
            then (case serialise c (if list_all deleted (pages pv) then [blankPage c]
                                    else spec_output_pages pdfDoc (pages pv)) of
                    Inl e \<Rightarrow> Inl e
                  | Inr pdfBytes \<Rightarrow> Inr (''modified-'' @ name f, pdfBytes))
            else Inl TypeError))"
proof (intro conjI allI impI)
  fix entries
  assume "map (exportFile c (previews st)) (files st) = map Inr entries"
  then show "processPDFs c st =
        (st\<lparr>loading := False\<rparr>,
         (case downloadMode st of
            Single \<Rightarrow> map (\<lambda>(n, b). \<lparr>downloadName = n, blob = b\<rparr>) entries
          | Zip \<Rightarrow>
              (case generateAsync c (foldl (\<lambda>a (n, b). zipFile c n b a) (newZip c) entries) of
                 Inl e \<Rightarrow> []
               | Inr z \<Rightarrow> [\<lparr>downloadName = ''processed-pdfs.zip'', blob = z\<rparr>])),
         (case downloadMode st of
            Single \<Rightarrow> None
          | Zip \<Rightarrow>
              (case generateAsync c (foldl (\<lambda>a (n, b). zipFile c n b a) (newZip c) entries) of
                 Inl e \<Rightarrow> Some e
               | Inr z \<Rightarrow> None)))"
    by (rule processPDFs_entries)
next
  fix st' ds
  assume "processPDFs c st = (st', ds, None)"
  then show "\<exists>entries. map (exportFile c (previews st)) (files st) = map Inr entries"
    by (rule processPDFs_None)
next
  fix g :: "'b File" and pdfDoc pv
  assume "load c (bytes g) = Inr pdfDoc \<and> previews st (name g) = Some pv"
  then have l: "load c (bytes g) = Inr pdfDoc" and p: "previews st (name g) = Some pv"
    by simp_all
  show "exportFile c (previews st) g =
           (if \<forall>p \<in> set (pages pv). \<not> deleted p
                  \<longrightarrow> 1 \<le> pageNo p \<and> pageNo p \<le> int (length pdfDoc)
            then (case serialise c (if list_all deleted (pages pv) then [blankPage c]
                                    else spec_output_pages pdfDoc (pages pv)) of
                    Inl e \<Rightarrow> Inl e
                  | Inr pdfBytes \<Rightarrow> Inr (''modified-'' @ name g, pdfBytes))
            else Inl TypeError)"
    by (rule exportFile_loaded[of c g pdfDoc "previews st" pv, OF l p])
qed

text \<open>
  The run of the specification: pages 1, 2, 3 reordered to 3, 1, 2, page 1 deleted;
  the document in the archive holds the source pages 3 and 2, in that order.
\<close>

theorem processPDFs_exports_pages_in_descriptor_order_witness:
  "exportFile demo_codec
       [''a.pdf'' \<mapsto> \<lparr>pages = [demo_p3, demo_p1\<lparr>deleted := True\<rparr>, demo_p2]\<rparr>] demo_file
     = Inr (''modified-a.pdf'', [''C'', ''B''])
   \<and> processPDFs demo_codec
       (demo_state\<lparr>previews :=
          [''a.pdf'' \<mapsto> \<lparr>pages = [demo_p3, demo_p1\<lparr>deleted := True\<rparr>, demo_p2]\<rparr>]\<rparr>)
     = (demo_state\<lparr>previews :=
          [''a.pdf'' \<mapsto> \<lparr>pages = [demo_p3, demo_p1\<lparr>deleted := True\<rparr>, demo_p2]\<rparr>],
          loading := False\<rparr>,
        [\<lparr>downloadName = ''processed-pdfs.zip'', blob = [''C'', ''B'']\<rparr>], None)"
proof -
  let ?st = "demo_state\<lparr>previews :=
          [''a.pdf'' \<mapsto> \<lparr>pages = [demo_p3, demo_p1\<lparr>deleted := True\<rparr>, demo_p2]\<rparr>]\<rparr>"
  note inst = processPDFs_exports_pages_in_descriptor_order[of demo_codec ?st]
  have l: "load demo_codec (bytes demo_file) = Inr [''A'', ''B'', ''C'']
      \<and> previews ?st (name demo_file)
          = Some \<lparr>pages = [demo_p3, demo_p1\<lparr>deleted := True\<rparr>, demo_p2]\<rparr>"
    by (simp add: demo_defs)
  from inst[THEN conjunct2, THEN conjunct2, rule_format, OF l]
  have e: "exportFile demo_codec (previews ?st) demo_file = Inr (''modified-a.pdf'', [''C'', ''B''])"
    by (simp add: demo_defs spec_output_pages_def)
  then have m: "map (exportFile demo_codec (previews ?st)) (files ?st)
      = map Inr [(''modified-a.pdf'', [''C'', ''B''])]"
    by (simp add: demo_state_def)
  from inst[THEN conjunct1, rule_format, OF m]
  have "processPDFs demo_codec ?st
     = (?st\<lparr>loading := False\<rparr>,
        [\<lparr>downloadName = ''processed-pdfs.zip'', blob = [''C'', ''B'']\<rparr>], None)"
    by (simp add: demo_state_def demo_codec_def)
  with e show ?thesis by (simp add: demo_state_def)
qed

text \<open>
  The document with every descriptor marked deleted: the pages of the descriptors
  that are not deleted are none, and the document in the archive holds a page, the
  blank page.
\<close>

theorem processPDFs_all_deleted_blank_page_counterexample:
  "processPDFs demo_codec
       (demo_state\<lparr>previews :=
          [''a.pdf'' \<mapsto> \<lparr>pages = [demo_p1\<lparr>deleted := True\<rparr>, demo_p2\<lparr>deleted := True\<rparr>,
                                   demo_p3\<lparr>deleted := True\<rparr>]\<rparr>]\<rparr>)
     = (demo_state\<lparr>previews :=
          [''a.pdf'' \<mapsto> \<lparr>pages = [demo_p1\<lparr>deleted := True\<rparr>, demo_p2\<lparr>deleted := True\<rparr>,
                                   demo_p3\<lparr>deleted := True\<rparr>]\<rparr>],
          loading := False\<rparr>,
        [\<lparr>downloadName = ''processed-pdfs.zip'', blob = [''blank'']\<rparr>], None)
   \<and> spec_output_pages [''A'', ''B'', ''C'']
        [demo_p1\<lparr>deleted := True\<rparr>, demo_p2\<lparr>deleted := True\<rparr>, demo_p3\<lparr>deleted := True\<rparr>] = []"
  by (simp add: processPDFs_def tryBlock_def exportFile_def save_def copyPages_def Let_def
      demo_defs spec_output_pages_def)

text \<open>
  C2, as the code has it. The export delivers exactly the documents \<open>exportFile\<close>
  makes of the files, as under C1. For a file the codec loads and that has an entry
  in \<^verbatim>\<open>previews\<close>, with every descriptor that is not deleted having a \<open>pageNo\<close> within
  the source, the document written has as many pages as there are descriptors that
  are not deleted when there is at least one, and one page when there is none; and
  a file whose descriptors are all deleted is exported without a failure of the
  copy, whatever the page numbers are, as the document of one blank page.
\<close>

theorem processPDFs_page_count:
  "(\<forall>entries.
      map (exportFile (c :: ('b, 'pg, 'z) codec) (previews st)) (files st) = map Inr entries \<longrightarrow>
      processPDFs c st =
        (st\<lparr>loading := False\<rparr>,
         (case downloadMode st of
            Single \<Rightarrow> map (\<lambda>(n, b). \<lparr>downloadName = n, blob = b\<rparr>) entries
          | Zip \<Rightarrow>
              (case generateAsync c (foldl (\<lambda>a (n, b). zipFile c n b a) (newZip c) entries) of
                 Inl e \<Rightarrow> []
               | Inr z \<Rightarrow> [\<lparr>downloadName = ''processed-pdfs.zip'', blob = z\<rparr>])),
         (case downloadMode st of
            Single \<Rightarrow> None
          | Zip \<Rightarrow>
              (case generateAsync c (foldl (\<lambda>a (n, b). zipFile c n b a) (newZip c) entries) of
                 Inl e \<Rightarrow> Some e
               | Inr z \<Rightarrow> None))))
   \<and> (\<forall>st' ds. processPDFs c st = (st', ds, None) \<longrightarrow>
         (\<exists>entries. map (exportFile c (previews st)) (files st) = map Inr entries))
   \<and> (\<forall>f pdfDoc pv. load c (bytes f) = Inr pdfDoc \<and> previews st (name f) = Some pv
          \<and> (\<forall>p \<in> set (pages pv). \<not> deleted p
                \<longrightarrow> 1 \<le> pageNo p \<and> pageNo p \<le> int (length pdfDoc)) \<longrightarrow>
         (\<exists>outDoc.
             length outDoc = (if list_all deleted (pages pv) then 1
                              else length (filter (\<lambda>p. \<not> deleted p) (pages pv)))
           \<and> exportFile c (previews st) f =
               (case serialise c outDoc of
                  Inl e \<Rightarrow> Inl e
                | Inr pdfBytes \<Rightarrow> Inr (''modified-'' @ name f, pdfBytes))))
   \<and> (\<forall>f pdfDoc pv. load c (bytes f) = Inr pdfDoc \<and> previews st (name f) = Some pv
          \<and> list_all deleted (pages pv) \<longrightarrow>
         exportFile c (previews st) f =
           (case serialise c [blankPage c] of
              Inl e \<Rightarrow> Inl e
            | Inr pdfBytes \<Rightarrow> Inr (''modified-'' @ name f, pdfBytes)))"
proof (intro conjI allI impI)
  fix entries
  assume "map (exportFile c (previews st)) (files st) = map Inr entries"
  then show "processPDFs c st =
        (st\<lparr>loading := False\<rparr>,
         (case downloadMode st of
            Single \<Rightarrow> map (\<lambda>(n, b). \<lparr>downloadName = n, blob = b\<rparr>) entries
          | Zip \<Rightarrow>
              (case generateAsync c (foldl (\<lambda>a (n, b). zipFile c n b a) (newZip c) entries) of
                 Inl e \<Rightarrow> []
               | Inr z \<Rightarrow> [\<lparr>downloadName = ''processed-pdfs.zip'', blob = z\<rparr>])),
         (case downloadMode st of
            Single \<Rightarrow> None
          | Zip \<Rightarrow>
              (case generateAsync c (foldl (\<lambda>a (n, b). zipFile c n b a) (newZip c) entries) of
                 Inl e \<Rightarrow> Some e
               | Inr z \<Rightarrow> None)))"
    by (rule processPDFs_entries)
next
  fix st' ds
  assume "processPDFs c st = (st', ds, None)"
  then show "\<exists>entries. map (exportFile c (previews st)) (files st) = map Inr entries"
    by (rule processPDFs_None)
next
  fix g :: "'b File" and pdfDoc pv
  assume a: "load c (bytes g) = Inr pdfDoc \<and> previews st (name g) = Some pv
          \<and> (\<forall>p \<in> set (pages pv). \<not> deleted p
                \<longrightarrow> 1 \<le> pageNo p \<and> pageNo p \<le> int (length pdfDoc))"
  then have l: "load c (bytes g) = Inr pdfDoc" and p: "previews st (name g) = Some pv"
    and r: "\<forall>p \<in> set (pages pv). \<not> deleted p
                \<longrightarrow> 1 \<le> pageNo p \<and> pageNo p \<le> int (length pdfDoc)"
    by simp_all
  let ?out = "if list_all deleted (pages pv) then [blankPage c]
              else spec_output_pages pdfDoc (pages pv)"
  have "length ?out = (if list_all deleted (pages pv) then 1
                       else length (filter (\<lambda>p. \<not> deleted p) (pages pv)))"
    by (simp add: spec_output_pages_length)
  moreover from exportFile_loaded[of c g pdfDoc "previews st" pv, OF l p] r
  have "exportFile c (previews st) g =
               (case serialise c ?out of
                  Inl e \<Rightarrow> Inl e
                | Inr pdfBytes \<Rightarrow> Inr (''modified-'' @ name g, pdfBytes))"
    by (simp del: ball_simps)
  ultimately show "\<exists>outDoc.
             length outDoc = (if list_all deleted (pages pv) then 1
                              else length (filter (\<lambda>p. \<not> deleted p) (pages pv)))
           \<and> exportFile c (previews st) g =
               (case serialise c outDoc of
                  Inl e \<Rightarrow> Inl e
                | Inr pdfBytes \<Rightarrow> Inr (''modified-'' @ name g, pdfBytes))"
    by (intro exI[of _ ?out] conjI)
next
  fix g :: "'b File" and pdfDoc pv
  assume a: "load c (bytes g) = Inr pdfDoc \<and> previews st (name g) = Some pv
          \<and> list_all deleted (pages pv)"
  then have l: "load c (bytes g) = Inr pdfDoc" and p: "previews st (name g) = Some pv"
    and d: "list_all deleted (pages pv)"
    by simp_all
  from d have "\<forall>p \<in> set (pages pv). \<not> deleted p
                \<longrightarrow> 1 \<le> pageNo p \<and> pageNo p \<le> int (length pdfDoc)"
    by (simp add: list_all_iff)
  with exportFile_loaded[of c g pdfDoc "previews st" pv, OF l p] d
  show "exportFile c (previews st) g =
           (case serialise c [blankPage c] of
              Inl e \<Rightarrow> Inl e
            | Inr pdfBytes \<Rightarrow> Inr (''modified-'' @ name g, pdfBytes))"
    by (simp del: ball_simps)
qed

text \<open>
  The session with page 2 deleted, in single mode: the document downloaded has the
  two pages of the two descriptors that are not deleted.
\<close>

theorem processPDFs_page_count_witness:
  "processPDFs demo_codec
       (demo_state\<lparr>downloadMode := Single, previews :=
          [''a.pdf'' \<mapsto> \<lparr>pages = [demo_p1, demo_p2\<lparr>deleted := True\<rparr>, demo_p3]\<rparr>]\<rparr>)
     = (demo_state\<lparr>downloadMode := Single, previews :=
          [''a.pdf'' \<mapsto> \<lparr>pages = [demo_p1, demo_p2\<lparr>deleted := True\<rparr>, demo_p3]\<rparr>],
          loading := False\<rparr>,
        [\<lparr>downloadName = ''modified-a.pdf'', blob = [''A'', ''C'']\<rparr>], None)
   \<and> length [''A'', ''C'']
      = length (filter (\<lambda>p. \<not> deleted p) [demo_p1, demo_p2\<lparr>deleted := True\<rparr>, demo_p3])"
proof -
  let ?st = "demo_state\<lparr>downloadMode := Single, previews :=
          [''a.pdf'' \<mapsto> \<lparr>pages = [demo_p1, demo_p2\<lparr>deleted := True\<rparr>, demo_p3]\<rparr>]\<rparr>"
  have m: "map (exportFile demo_codec (previews ?st)) (files ?st)
      = map Inr [(''modified-a.pdf'', [''A'', ''C''])]"
    by (simp add: exportFile_def save_def copyPages_def demo_defs)
  from processPDFs_page_count[of demo_codec ?st, THEN conjunct1, rule_format, OF m]
  have "processPDFs demo_codec ?st
     = (?st\<lparr>loading := False\<rparr>,
        [\<lparr>downloadName = ''modified-a.pdf'', blob = [''A'', ''C'']\<rparr>], None)"
    by (simp add: demo_state_def)
  then show ?thesis by (simp add: demo_defs)
qed

text \<open>
  The document with every descriptor marked deleted, in single mode: the export
  ends without a failure, no descriptor is not deleted, and the document
  downloaded has one page.
\<close>

theorem processPDFs_all_deleted_one_page_counterexample:
  "processPDFs demo_codec
       (demo_state\<lparr>downloadMode := Single, previews :=
          [''a.pdf'' \<mapsto> \<lparr>pages = [demo_p1\<lparr>deleted := True\<rparr>, demo_p2\<lparr>deleted := True\<rparr>,
                                   demo_p3\<lparr>deleted := True\<rparr>]\<rparr>]\<rparr>)
     = (demo_state\<lparr>downloadMode := Single, previews :=
          [''a.pdf'' \<mapsto> \<lparr>pages = [demo_p1\<lparr>deleted := True\<rparr>, demo_p2\<lparr>deleted := True\<rparr>,
                                   demo_p3\<lparr>deleted := True\<rparr>]\<rparr>],
          loading := False\<rparr>,
        [\<lparr>downloadName = ''modified-a.pdf'', blob = [''blank'']\<rparr>], None)
   \<and> length [''blank''] = Suc 0
   \<and> length (filter (\<lambda>p. \<not> deleted p)
        [demo_p1\<lparr>deleted := True\<rparr>, demo_p2\<lparr>deleted := True\<rparr>, demo_p3\<lparr>deleted := True\<rparr>]) = 0"
  by (simp add: processPDFs_def tryBlock_def exportFile_def save_def copyPages_def Let_def
      demo_defs)

section \<open>Toggle delete\<close>

lemma toggle_changes_iff:
  "((if pageNo (p::page) = pn then p\<lparr>deleted := \<not> deleted p\<rparr> else p) \<noteq> p) = (pageNo p = pn)"
proof (cases "pageNo p = pn")
  case True
  have "deleted (p\<lparr>deleted := \<not> deleted p\<rparr>) \<noteq> deleted p" by simp
  then have "p\<lparr>deleted := \<not> deleted p\<rparr> \<noteq> p" by metis
  with True show ?thesis by simp
next
  case False
  then show ?thesis by simp
qed

lemma distinct_unique_index:
  assumes "distinct (map f xs)" and "v \<in> f ` set xs"
  shows "\<exists>!i. i < length xs \<and> f (xs ! i) = v"
proof -
  from assms(2) obtain i where i: "i < length xs" "f (xs ! i) = v"
    by (auto simp: in_set_conv_nth)
  show ?thesis
  proof (rule ex1I[of _ i])
    show "i < length xs \<and> f (xs ! i) = v" using i by simp
  next
    fix k assume k: "k < length xs \<and> f (xs ! k) = v"
    then have "map f xs ! k = map f xs ! i" using i by simp
    moreover have "k < length (map f xs)" "i < length (map f xs)" using k i by simp_all
    ultimately show "k = i"
      using assms(1) nth_eq_iff_index_eq by blast
  qed
qed

text \<open>
  C7. For a document that has an entry in \<^verbatim>\<open>previews\<close>, \<open>toggleDelete file pn\<close>
  succeeds and changes nothing but the entry of \<open>file\<close>: every other document and
  every other part of the state stay as they are. In the entry the descriptors keep
  their places; a descriptor whose \<open>pageNo\<close> is \<open>pn\<close> has its \<open>deleted\<close> flag
  negated and every other descriptor is unchanged. When the page numbers of the
  document are distinct and \<open>pn\<close> is one of them, exactly one descriptor changes.
  When no descriptor has the page number \<open>pn\<close>, the state after is the state before.
\<close>

theorem toggleDelete_flips_one:
  assumes "previews st file = Some pv"
  shows "\<exists>st' pv'. toggleDelete file pn st = Inr st'
     \<and> st' = st\<lparr>previews := previews st'\<rparr>
     \<and> (\<forall>g. g \<noteq> file \<longrightarrow> previews st' g = previews st g)
     \<and> previews st' file = Some pv'
     \<and> length (pages pv') = length (pages pv)
     \<and> (\<forall>i < length (pages pv). pages pv' ! i =
           (if pageNo (pages pv ! i) = pn
            then (pages pv ! i)\<lparr>deleted := \<not> deleted (pages pv ! i)\<rparr>
            else pages pv ! i))
     \<and> (distinct (map pageNo (pages pv)) \<and> pn \<in> pageNo ` set (pages pv) \<longrightarrow>
          (\<exists>!i. i < length (pages pv) \<and> pages pv' ! i \<noteq> pages pv ! i))
     \<and> (pn \<notin> pageNo ` set (pages pv) \<longrightarrow> st' = st)"
proof -
  define f where "f = (\<lambda>p::page. if pageNo p = pn then p\<lparr>deleted := \<not> deleted p\<rparr> else p)"
  define pv' where "pv' = \<lparr>pages = map f (pages pv)\<rparr>"
  define st' where "st' = st\<lparr>previews := (previews st)(file \<mapsto> pv')\<rparr>"
  have run: "toggleDelete file pn st = Inr st'"
    using assms by (simp add: toggleDelete_def st'_def pv'_def f_def)
  have frame: "st' = st\<lparr>previews := previews st'\<rparr>"
    by (simp add: st'_def)
  have others: "\<forall>g. g \<noteq> file \<longrightarrow> previews st' g = previews st g"
    by (simp add: st'_def)
  have here: "previews st' file = Some pv'"
    by (simp add: st'_def)
  have len: "length (pages pv') = length (pages pv)"
    by (simp add: pv'_def)
  have nth: "\<forall>i < length (pages pv). pages pv' ! i =
           (if pageNo (pages pv ! i) = pn
            then (pages pv ! i)\<lparr>deleted := \<not> deleted (pages pv ! i)\<rparr>
            else pages pv ! i)"
    by (simp add: pv'_def f_def)
  have uniq: "distinct (map pageNo (pages pv)) \<and> pn \<in> pageNo ` set (pages pv) \<longrightarrow>
          (\<exists>!i. i < length (pages pv) \<and> pages pv' ! i \<noteq> pages pv ! i)"
  proof
    assume a: "distinct (map pageNo (pages pv)) \<and> pn \<in> pageNo ` set (pages pv)"
    have "\<And>i. (i < length (pages pv) \<and> pages pv' ! i \<noteq> pages pv ! i)
           = (i < length (pages pv) \<and> pageNo (pages pv ! i) = pn)"
    proof -
      fix i
      show "(i < length (pages pv) \<and> pages pv' ! i \<noteq> pages pv ! i)
           = (i < length (pages pv) \<and> pageNo (pages pv ! i) = pn)"
      proof (cases "i < length (pages pv)")
        case True
        then have "pages pv' ! i = f (pages pv ! i)" by (simp add: pv'_def)
        with True toggle_changes_iff[of "pages pv ! i" pn] show ?thesis
          by (simp add: f_def)
      next
        case False
        then show ?thesis by simp
      qed
    qed
    moreover have "\<exists>!i. i < length (pages pv) \<and> pageNo (pages pv ! i) = pn"
      using a distinct_unique_index[of pageNo "pages pv" pn] by simp
    ultimately show "\<exists>!i. i < length (pages pv) \<and> pages pv' ! i \<noteq> pages pv ! i"
      by simp
  qed
  have noop: "pn \<notin> pageNo ` set (pages pv) \<longrightarrow> st' = st"
  proof
    assume "pn \<notin> pageNo ` set (pages pv)"
    then have "map f (pages pv) = pages pv"
      by (intro map_idI) (auto simp: f_def)
    then have "pv' = pv" by (simp add: pv'_def)
    with assms have "(previews st)(file \<mapsto> pv') = previews st"
      by (simp add: map_upd_triv)
    then show "st' = st" by (simp add: st'_def)
  qed
  show ?thesis
    apply (rule exI[of _ st'])
    apply (rule exI[of _ pv'])
    apply (intro conjI)
    apply (fact run frame others here len nth uniq noop)+
    done
qed

text \<open>Page 2 of the session toggled, and a page number that no descriptor has.\<close>

theorem toggleDelete_flips_one_witness:
  "toggleDelete ''a.pdf'' 2 demo_state
     = Inr (demo_state\<lparr>previews :=
         [''a.pdf'' \<mapsto> \<lparr>pages = [demo_p1, demo_p2\<lparr>deleted := True\<rparr>, demo_p3]\<rparr>]\<rparr>)
   \<and> toggleDelete ''a.pdf'' 7 demo_state = Inr demo_state"
proof -
  have pv: "previews demo_state ''a.pdf'' = Some \<lparr>pages = [demo_p1, demo_p2, demo_p3]\<rparr>"
    by (simp add: demo_state_def)
  have absent: "7 \<notin> pageNo ` set (pages \<lparr>pages = [demo_p1, demo_p2, demo_p3]\<rparr>)"
    by (simp add: demo_defs)
  from toggleDelete_flips_one[OF pv, of 7] absent
  have "toggleDelete ''a.pdf'' 7 demo_state = Inr demo_state"
    by auto
  moreover have "toggleDelete ''a.pdf'' 2 demo_state
     = Inr (demo_state\<lparr>previews :=
         [''a.pdf'' \<mapsto> \<lparr>pages = [demo_p1, demo_p2\<lparr>deleted := True\<rparr>, demo_p3]\<rparr>]\<rparr>)"
    by (simp add: toggleDelete_def demo_defs)
  ultimately show ?thesis by simp
qed

section \<open>Numbers of JavaScript\<close>

text \<open>
  Rounding to the nearest double leaves an integer below \<open>2^53\<close> in absolute value as
  it is, the set the loop of the handler fills holds the numbers the loop passes
  through, and the loop ends between bounds below \<open>2^53\<close>.
\<close>

lemma bitLength_lower: "0 < n \<Longrightarrow> 2 ^ (bitLength n - 1) \<le> n"
proof (induction n rule: bitLength.induct)
  case (1 n)
  show ?case
  proof (cases "n div 2 = 0")
    case True
    with 1(2) have "n = 1" by (cases n) auto
    then show ?thesis by (simp add: bitLength.simps)
  next
    case False
    then have pos: "0 < n div 2" by simp
    with 1 have ih: "2 ^ (bitLength (n div 2) - 1) \<le> n div 2" by simp
    from pos have "bitLength (n div 2) \<noteq> 0" by (subst bitLength.simps) simp
    then obtain k where k: "bitLength (n div 2) = Suc k" by (cases "bitLength (n div 2)") auto
    have "bitLength n = Suc (Suc k)" using 1(2) k by (subst bitLength.simps) simp
    then have "2 ^ (bitLength n - 1) = 2 * 2 ^ k" by simp
    also have "\<dots> \<le> 2 * (n div 2)" using ih k by simp
    also have "\<dots> \<le> n" by simp
    finally show ?thesis .
  qed
qed

lemma log2floor_le_52:
  assumes "0 < a" and "a < 2 ^ 53"
  shows "log2floor a \<le> 52"
proof (cases "1 \<le> a")
  case True
  define m where "m = nat \<lfloor>a\<rfloor>"
  from True have m1: "0 < m" by (simp add: m_def)
  have "of_nat m \<le> a" using True by (simp add: m_def)
  with assms(2) have "(of_nat m :: rat) < 2 ^ 53" by simp
  then have "(of_nat m :: rat) < of_nat (2 ^ 53)" by simp
  then have "m < 2 ^ 53" by (simp only: of_nat_less_iff)
  with bitLength_lower[OF m1] have "(2::nat) ^ (bitLength m - 1) < 2 ^ 53" by simp
  then have "bitLength m - 1 < 53" by (rule power_less_imp_less_exp[rotated]) simp
  then show ?thesis using True by (simp add: log2floor_def m_def)
next
  case False
  then show ?thesis by (simp add: log2floor_def)
qed

lemma roundHalfEven_near: "\<bar>of_int (roundHalfEven x) - x\<bar> \<le> 1 / 2"
proof -
  define f where "f = \<lfloor>x\<rfloor>"
  define d where "d = x - of_int f"
  have d: "0 \<le> d" "d < 1" unfolding d_def f_def by linarith+
  have x: "x = of_int f + d" by (simp add: d_def)
  have rhe: "roundHalfEven x =
      (if d < 1 / 2 then f else if 1 / 2 < d then f + 1 else if even f then f else f + 1)"
    unfolding roundHalfEven_def Let_def d_def f_def by (rule refl)
  consider "roundHalfEven x = f" "d \<le> 1 / 2" | "roundHalfEven x = f + 1" "1 / 2 \<le> d"
    using rhe by (cases "d < 1 / 2"; cases "1 / 2 < d"; cases "even f") auto
  then show ?thesis
  proof cases
    case 1
    then show ?thesis using d by (simp add: x)
  next
    case 2
    then show ?thesis using d by (simp add: x abs_if)
  qed
qed

lemma roundHalfEven_int: "roundHalfEven (of_int m) = m"
  by (simp add: roundHalfEven_def)

lemma roundHalfEven_nonneg: "0 \<le> x \<Longrightarrow> 0 \<le> roundHalfEven x"
  by (auto simp: roundHalfEven_def Let_def)

lemma pow2_pos: "0 < pow2 e"
  by (simp add: pow2_def)

lemma pow2_nonpos: "e \<le> 0 \<Longrightarrow> pow2 e = 1 / 2 ^ nat (- e)"
  by (auto simp: pow2_def)

lemma pow2_le_1: "e \<le> 0 \<Longrightarrow> pow2 e \<le> 1"
  by (simp add: pow2_nonpos)

lemma toDouble_near:
  assumes "\<bar>x\<bar> < 2 ^ 53"
  shows "\<exists>y. toDouble x = Fin y \<and> \<bar>y - x\<bar> \<le> 1 / 2"
proof (cases "x = 0")
  case True
  then show ?thesis by (simp add: toDouble_def)
next
  case False
  define a where "a = \<bar>x\<bar>"
  define e where "e = max (log2floor a) (- 1022)"
  define u where "u = pow2 (e - 52)"
  define k where "k = roundHalfEven (a / u)"
  define r where "r = of_int k * u"
  have apos: "0 < a" using False by (simp add: a_def)
  have "log2floor a \<le> 52" using apos assms by (intro log2floor_le_52) (simp_all add: a_def)
  then have e52: "e - 52 \<le> 0" by (simp add: e_def)
  have upos: "0 < u" by (simp add: u_def pow2_pos)
  have ule: "u \<le> 1" using e52 by (simp add: u_def pow2_le_1)
  have "\<bar>of_int k - a / u\<bar> \<le> 1 / 2" unfolding k_def by (rule roundHalfEven_near)
  then have "\<bar>of_int k - a / u\<bar> * u \<le> 1 / 2 * u" using upos by (intro mult_right_mono) simp_all
  moreover have "\<bar>of_int k - a / u\<bar> * u = \<bar>r - a\<bar>"
  proof -
    have "\<bar>of_int k - a / u\<bar> * u = \<bar>(of_int k - a / u) * u\<bar>" using upos by (simp add: abs_mult)
    also have "(of_int k - a / u) * u = r - a" using upos by (simp add: r_def field_simps)
    finally show ?thesis .
  qed
  ultimately have near: "\<bar>r - a\<bar> \<le> 1 / 2" using ule by linarith
  have "r - a \<le> 1 / 2" using near by (simp only: abs_le_iff)
  moreover have "a < 2 ^ 53" using assms by (simp only: a_def)
  ultimately have "r < 2 ^ 53 + 1" by linarith
  moreover have "(2::rat) ^ 53 + 1 \<le> 2 ^ 1024" by simp
  ultimately have small: "\<not> 2 ^ 1024 \<le> r" by (simp only: not_le)
  have td: "toDouble x = Fin (if x < 0 then - r else r)"
    using False small
    by (simp add: toDouble_def Let_def a_def[symmetric] e_def[symmetric] u_def[symmetric]
        k_def[symmetric] r_def[symmetric])
  have "\<bar>(if x < 0 then - r else r) - x\<bar> = \<bar>r - a\<bar>"
    by (auto simp: a_def abs_if)
  with near td show ?thesis by simp
qed

lemma toDouble_int:
  assumes "\<bar>n\<bar> < 2 ^ 53"
  shows "toDouble (of_int n) = Fin (of_int n)"
proof (cases "n = 0")
  case True
  then show ?thesis by (simp add: toDouble_def)
next
  case False
  define a :: rat where "a = \<bar>of_int n\<bar>"
  define e where "e = max (log2floor a) (- 1022)"
  define u where "u = pow2 (e - 52)"
  define k where "k = roundHalfEven (a / u)"
  define r where "r = of_int k * u"
  have a_int: "a = of_int \<bar>n\<bar>" by (simp add: a_def)
  have apos: "0 < a" using False by (simp add: a_def)
  have alt: "a < 2 ^ 53"
  proof -
    from assms have "(of_int \<bar>n\<bar> :: rat) < of_int (2 ^ 53)" by (simp only: of_int_less_iff)
    then show ?thesis by (simp add: a_int)
  qed
  have "log2floor a \<le> 52" using apos alt by (rule log2floor_le_52)
  then have e52: "e - 52 \<le> 0" by (simp add: e_def)
  define j where "j = nat (- (e - 52))"
  have u: "u = 1 / 2 ^ j" using e52 by (simp add: u_def j_def pow2_nonpos)
  have "a / u = of_int (\<bar>n\<bar> * 2 ^ j)" by (simp add: u a_int)
  then have "k = \<bar>n\<bar> * 2 ^ j" by (simp only: k_def roundHalfEven_int)
  then have r: "r = a" by (simp add: r_def u a_int)
  have "(2::rat) ^ 53 \<le> 2 ^ 1024" by simp
  with alt have small: "\<not> 2 ^ 1024 \<le> r" by (simp add: r)
  have "toDouble (of_int n) = Fin (if (of_int n :: rat) < 0 then - r else r)"
    using False small
    by (simp add: toDouble_def Let_def a_def[symmetric] e_def[symmetric] u_def[symmetric]
        k_def[symmetric] r_def[symmetric])
  also have "(if (of_int n :: rat) < 0 then - r else r) = of_int n"
    by (auto simp: r a_def abs_if)
  finally show ?thesis .
qed

lemma loopValues_start: "x \<in> loopValues s e \<Longrightarrow> jsLe s e"
  by (induction rule: loopValues.induct)

lemma loopValues_tail: "x \<in> loopValues s e \<Longrightarrow> x = s \<or> x \<in> loopValues (jsInc s) e"
proof (induction rule: loopValues.induct)
  case first
  then show ?case by simp
next
  case (succ x)
  then show ?case by (auto intro: loopValues.intros)
qed

lemma loopValues_later: "x \<in> loopValues (jsInc s) e \<Longrightarrow> jsLe s e \<Longrightarrow> x \<in> loopValues s e"
  by (induction rule: loopValues.induct) (auto intro: loopValues.intros)

lemma loopValues_unfold:
  "loopValues s e = (if jsLe s e then insert s (loopValues (jsInc s) e) else {})"
proof (cases "jsLe s e")
  case False
  with loopValues_start[of _ s e] show ?thesis by auto
next
  case True
  have "loopValues s e = insert s (loopValues (jsInc s) e)"
  proof (intro set_eqI iffI)
    fix x assume "x \<in> loopValues s e"
    from loopValues_tail[OF this] show "x \<in> insert s (loopValues (jsInc s) e)" by auto
  next
    fix x assume "x \<in> insert s (loopValues (jsInc s) e)"
    then show "x \<in> loopValues s e"
      using True loopValues.first[OF True] loopValues_later[of x s e] by auto
  qed
  with True show ?thesis by simp
qed

lemma setAdd_Inr: "setAdd x S = Inr S' \<Longrightarrow> set S' = insert x (set S)"
  by (auto simp: setAdd_def split: if_splits)

lemma setAdd_Inl: "setAdd x S = Inl err \<Longrightarrow> err = RangeError"
  by (auto simp: setAdd_def split: if_splits)

lemma rangeLoop_result:
  assumes "rangeLoop i e S = Some r"
  shows "case r of Inl err \<Rightarrow> err = RangeError | Inr S' \<Rightarrow> set S' = set S \<union> loopValues i e"
  using assms
proof (induction i e S r rule: rangeLoop.raw_induct[rotated 1, consumes 1, case_names step])
  case (step loop i e S r)
  show ?case
  proof (cases "jsLe i e")
    case False
    with step(2) have r: "r = Inr S" by (simp only: if_False option.inject)
    from False have "loopValues i e = {}" by (subst loopValues_unfold) (simp only: if_False)
    with r show ?thesis by simp
  next
    case True
    then have lv: "loopValues i e = insert i (loopValues (jsInc i) e)"
      by (subst loopValues_unfold) (simp only: if_True)
    show ?thesis
    proof (cases "setAdd i S")
      case (Inl err)
      with True step(2) have "r = Inl err" by (simp only: if_True sum.case option.inject)
      with setAdd_Inl[OF Inl] show ?thesis by simp
    next
      case (Inr S1)
      with True step(2) have "loop (jsInc i) e S1 = Some r" by (simp only: if_True sum.case)
      from step(1)[OF this]
      have ih: "case r of Inl err \<Rightarrow> err = RangeError
                | Inr S' \<Rightarrow> set S' = set S1 \<union> loopValues (jsInc i) e" .
      from setAdd_Inr[OF Inr] have s1: "set S1 = insert i (set S)" .
      show ?thesis
      proof (cases r)
        case (Inl err)
        with ih show ?thesis by simp
      next
        case r: (Inr S')
        with ih have "set S' = set S1 \<union> loopValues (jsInc i) e" by simp
        then have "set S' = set S \<union> loopValues i e" unfolding s1 lv by blast
        with r show ?thesis by simp
      qed
    qed
  qed
qed

lemma jsInc_progress:
  assumes "- (2 ^ 53) \<le> q" and "q < 2 ^ 53 - 1"
  shows "\<exists>y. jsInc (Fin q) = Fin y \<and> q + 1 / 2 \<le> y"
proof -
  from assms have "\<bar>q + 1\<bar> < 2 ^ 53" by (simp add: abs_less_iff)
  from toDouble_near[OF this] obtain y where y: "toDouble (q + 1) = Fin y" "\<bar>y - (q + 1)\<bar> \<le> 1 / 2"
    by blast
  from y(2) have "q + 1 / 2 \<le> y" unfolding abs_le_iff by linarith
  with y(1) show ?thesis by (simp add: jsInc_def)
qed

lemma rangeLoop_terminates_fuel:
  "2 * (b - q) < of_nat n \<Longrightarrow> - (2 ^ 53) \<le> q \<Longrightarrow> b < 2 ^ 53 - 1 \<Longrightarrow>
   \<exists>r. rangeLoop (Fin q) (Fin b) S = Some r"
proof (induction n arbitrary: q S)
  case 0
  then have "\<not> q \<le> b" by simp
  then show ?case by (subst rangeLoop.simps) (simp add: jsLe_def)
next
  case (Suc n)
  show ?case
  proof (cases "q \<le> b")
    case False
    then show ?thesis by (subst rangeLoop.simps) (simp add: jsLe_def)
  next
    case True
    show ?thesis
    proof (cases "setAdd (Fin q) S")
      case (Inl err)
      with True show ?thesis by (subst rangeLoop.simps) (simp add: jsLe_def)
    next
      case (Inr S1)
      from True Suc.prems(3) have "q < 2 ^ 53 - 1" by simp
      from jsInc_progress[OF Suc.prems(2) this] obtain y where
        y: "jsInc (Fin q) = Fin y" "q + 1 / 2 \<le> y" by blast
      have "2 * (b - y) < of_nat n" using y(2) Suc.prems(1) by simp
      moreover have "- (2 ^ 53) \<le> y" using y(2) Suc.prems(2) by linarith
      ultimately obtain r where "rangeLoop (Fin y) (Fin b) S1 = Some r"
        using Suc.IH[of y S1] Suc.prems(3) by blast
      with True Inr y(1) show ?thesis by (subst rangeLoop.simps) (simp add: jsLe_def)
    qed
  qed
qed

lemma rangeLoop_terminates:
  assumes "- (2 ^ 53) \<le> q" and "b < 2 ^ 53 - 1"
  shows "\<exists>r. rangeLoop (Fin q) (Fin b) S = Some r"
proof -
  obtain n where "2 * (b - q) < of_nat n" using reals_Archimedean2 by blast
  from rangeLoop_terminates_fuel[OF this assms] show ?thesis .
qed

lemma loopValues_ints:
  assumes "- (2 ^ 53) < a" and "b < 2 ^ 53 - 1"
  shows "loopValues (Fin (of_int a)) (Fin (of_int b)) = (\<lambda>n. Fin (of_int n)) ` {a..b}"
  using assms(1)
proof (induction "nat (b - a + 1)" arbitrary: a rule: less_induct)
  case less
  show ?case
  proof (cases "a \<le> b")
    case False
    then show ?thesis by (subst loopValues_unfold) (simp add: jsLe_def)
  next
    case True
    from True less.prems assms(2) have "\<bar>a + 1\<bar> < 2 ^ 53" by simp
    from toDouble_int[OF this] have inc: "jsInc (Fin (of_int a)) = Fin (of_int (a + 1))"
      by (simp add: jsInc_def)
    have "nat (b - (a + 1) + 1) < nat (b - a + 1)" using True by simp
    moreover have "- (2 ^ 53) < a + 1" using less.prems by simp
    ultimately have ih: "loopValues (Fin (of_int (a + 1))) (Fin (of_int b))
        = (\<lambda>n. Fin (of_int n)) ` {a + 1..b}" by (rule less.hyps)
    have split: "{a..b} = insert a {a + 1..b}" using True by auto
    have "jsLe (Fin (of_int a)) (Fin (of_int b))" using True by (simp add: jsLe_def)
    then have "loopValues (Fin (of_int a)) (Fin (of_int b))
        = insert (Fin (of_int a)) (loopValues (jsInc (Fin (of_int a))) (Fin (of_int b)))"
      by (subst loopValues_unfold) (simp only: if_True)
    also have "\<dots> = insert (Fin (of_int a)) ((\<lambda>n. Fin (of_int n)) ` {a + 1..b})"
      by (simp only: inc ih)
    also have "\<dots> = (\<lambda>n. Fin (of_int n)) ` insert a {a + 1..b}"
      by (simp only: image_insert)
    finally show ?thesis by (simp only: split)
  qed
qed

lemma jsLe_NaN: "\<not> jsLe NaN e" "\<not> jsLe s NaN"
  by (simp_all add: jsLe_def split: jsnum.splits)

lemma loopValues_NaN: "s = NaN \<or> e = NaN \<Longrightarrow> loopValues s e = {}"
  using jsLe_NaN by (subst loopValues_unfold) auto

section \<open>The terms of a range expression\<close>

lemma digit_not_space: "isDigit c \<Longrightarrow> \<not> isWhiteSpace c"
  by (auto simp: isDigit_def isWhiteSpace_def)

lemma digit_cases:
  "isDigit c \<Longrightarrow> c \<noteq> CHR ''+'' \<and> c \<noteq> CHR ''-'' \<and> c \<noteq> CHR ''.'' \<and> c \<noteq> CHR ''e''
     \<and> c \<noteq> CHR ''E'' \<and> c \<noteq> CHR ''I'' \<and> c \<notin> set ''bBoOxX''"
  by (auto simp: isDigit_def)

lemma set_trim: "set t \<subseteq> set (trim t) \<union> {c. isWhiteSpace c}"
proof -
  define d where "d = dropWhile isWhiteSpace t"
  have "set t = set (takeWhile isWhiteSpace t) \<union> set d"
    by (metis d_def set_append takeWhile_dropWhile_id)
  moreover have "set (takeWhile isWhiteSpace t) \<subseteq> {c. isWhiteSpace c}"
    by (auto dest: set_takeWhileD)
  moreover have "set d = set (rev d)" by simp
  moreover have "set (rev d) = set (takeWhile isWhiteSpace (rev d)) \<union> set (dropWhile isWhiteSpace (rev d))"
    by (metis set_append takeWhile_dropWhile_id)
  moreover have "set (takeWhile isWhiteSpace (rev d)) \<subseteq> {c. isWhiteSpace c}"
    by (auto dest: set_takeWhileD)
  moreover have "set (trim t) = set (dropWhile isWhiteSpace (rev d))"
    by (simp add: trim_def d_def)
  ultimately show ?thesis by blast
qed

lemma digits_no_dash: "isDigits (trim t) \<Longrightarrow> CHR ''-'' \<notin> set t"
proof
  assume d: "isDigits (trim t)" and m: "CHR ''-'' \<in> set t"
  have "\<not> isWhiteSpace CHR ''-''" by (simp add: isWhiteSpace_def)
  with m set_trim[of t] have "CHR ''-'' \<in> set (trim t)" by auto
  with d have "isDigit CHR ''-''" by (auto simp: isDigits_def list_all_iff)
  then show False by (simp add: isDigit_def)
qed

lemma dash_not_digits: "CHR ''-'' \<in> set t \<Longrightarrow> \<not> isDigits (trim t)"
  using digits_no_dash by blast

lemma nonDecimalRadix_digits: "isDigits u \<Longrightarrow> nonDecimalRadix u = None"
proof (cases u)
  case Nil
  then show ?thesis by (simp add: nonDecimalRadix_def)
next
  case (Cons z v)
  assume d: "isDigits u"
  show ?thesis
  proof (cases v)
    case Nil
    with Cons show ?thesis by (simp add: nonDecimalRadix_def)
  next
    case (Cons p ds)
    with d \<open>u = z # v\<close> have "isDigit p" by (simp add: isDigits_def)
    from digit_cases[OF this] have "p \<notin> set ''bBoOxX''" by blast
    then have "p \<notin> set ''bB''" "p \<notin> set ''oO''" "p \<notin> set ''xX''" by auto
    with Cons \<open>u = z # v\<close> show ?thesis by (simp add: nonDecimalRadix_def)
  qed
qed

lemma decimal_digits:
  assumes "isDigits u"
  shows "isDecimalLiteral u" and "decimalMV u = of_nat (decimalValue u)"
    and "stripSign u = u" and "hd u \<noteq> CHR ''-''" and "u \<noteq> ''Infinity''" and "u \<noteq> []"
proof -
  from assms have ne: "u \<noteq> []" and all: "\<forall>c \<in> set u. isDigit c"
    by (simp_all add: isDigits_def list_all_iff)
  show "u \<noteq> []" by fact
  from all digit_cases have noE: "\<forall>c \<in> set u. c \<noteq> CHR ''e'' \<and> c \<noteq> CHR ''E''" by blast
  from all digit_cases have noDot: "\<forall>c \<in> set u. c \<noteq> CHR ''.''" by blast
  have tE: "takeWhile (\<lambda>c. c \<noteq> CHR ''e'' \<and> c \<noteq> CHR ''E'') u = u"
    using noE by (simp add: takeWhile_eq_all_conv)
  have dE: "dropWhile (\<lambda>c. c \<noteq> CHR ''e'' \<and> c \<noteq> CHR ''E'') u = []"
    using noE by (simp add: dropWhile_eq_Nil_conv)
  have tD: "takeWhile (\<lambda>c. c \<noteq> CHR ''.'') u = u"
    using noDot by (simp add: takeWhile_eq_all_conv)
  have dD: "dropWhile (\<lambda>c. c \<noteq> CHR ''.'') u = []"
    using noDot by (simp add: dropWhile_eq_Nil_conv)
  show "isDecimalLiteral u"
    using assms by (simp add: isDecimalLiteral_def isMantissa_def Let_def tE dE tD dD)
  show "decimalMV u = of_nat (decimalValue u)"
    by (simp add: decimalMV_def Let_def tE dE tD dD signedValue_def pow10_def)
  from ne obtain c cs where u: "u = c # cs" by (cases u) auto
  with all have "isDigit c" by simp
  from digit_cases[OF this] u show "stripSign u = u" "hd u \<noteq> CHR ''-''" "u \<noteq> ''Infinity''"
    by (auto simp: stripSign_def)
qed

lemma Number_digits:
  assumes "isDigits (trim t)" and "int (decimalValue (trim t)) < 2 ^ 53"
  shows "Number t = Fin (of_nat (decimalValue (trim t)))"
proof -
  note d = decimal_digits[OF assms(1)]
  have "\<bar>int (decimalValue (trim t))\<bar> < 2 ^ 53" using assms(2) by simp
  from toDouble_int[OF this]
  have td: "toDouble (of_nat (decimalValue (trim t))) = Fin (of_nat (decimalValue (trim t)))"
    by simp
  show ?thesis
    using d nonDecimalRadix_digits[OF assms(1)] td
    by (simp add: Number_def Let_def)
qed

lemma js_split_no_separator: "c \<notin> set s \<Longrightarrow> js_split c s = [s]"
  by (induction s) auto

lemma js_split_two: "js_split c s = [a, b] \<Longrightarrow> c \<in> set s"
  using js_split_no_separator[of c s] by auto

lemma Fin_of_int_inj: "(Fin (of_int n) = Fin (of_int m)) = (n = m)"
  by simp

lemma termNumbers_well_formed:
  assumes "spec_well_formed t" and "0 < n"
  shows "(Fin (of_int n) \<in> termNumbers t) = (n \<in> spec_term_pages t)"
proof (cases "isDigits (trim t)")
  case True
  with assms(1) have b: "int (decimalValue (trim t)) < 2 ^ 53 - 1" by (simp add: spec_well_formed_def)
  then have "int (decimalValue (trim t)) < 2 ^ 53" by linarith
  from Number_digits[OF True this] have num: "Number t = Fin (of_int (int (decimalValue (trim t))))"
    by simp
  from digits_no_dash[OF True] have tn: "termNumbers t = {Number t}"
    by (simp add: termNumbers_def js_includes_def)
  have "(Fin (of_int n) \<in> termNumbers t) = (n = int (decimalValue (trim t)))"
    unfolding tn num by (simp only: singleton_iff Fin_of_int_inj)
  also have "\<dots> = (n \<in> spec_term_pages t)"
    using True assms(2) by (auto simp: spec_term_pages_def)
  finally show ?thesis .
next
  case False
  with assms(1) obtain a b where ab: "js_split CHR ''-'' t = [a, b]"
    and da: "isDigits (trim a)" and db: "isDigits (trim b)"
    and ba: "int (decimalValue (trim a)) < 2 ^ 53 - 1"
    and bb: "int (decimalValue (trim b)) < 2 ^ 53 - 1"
    by (simp add: spec_well_formed_def split: list.splits)
  from ba have "int (decimalValue (trim a)) < 2 ^ 53" by linarith
  from Number_digits[OF da this]
  have na: "Number a = Fin (of_int (int (decimalValue (trim a))))" by simp
  from bb have "int (decimalValue (trim b)) < 2 ^ 53" by linarith
  from Number_digits[OF db this]
  have nb: "Number b = Fin (of_int (int (decimalValue (trim b))))" by simp
  have dash: "CHR ''-'' \<in> set t" using ab by (rule js_split_two)
  have "termNumbers t = loopValues (Number a) (Number b)"
    using dash ab by (simp add: termNumbers_def js_includes_def)
  also have "\<dots> = (\<lambda>n. Fin (of_int n)) ` {int (decimalValue (trim a)) .. int (decimalValue (trim b))}"
    unfolding na nb
  proof (rule loopValues_ints)
    have "(0::int) \<le> int (decimalValue (trim a))" by simp
    moreover have "- (2 ^ 53) < (0::int)" by simp
    ultimately show "- (2 ^ 53) < int (decimalValue (trim a))" by (rule less_le_trans[rotated])
    show "int (decimalValue (trim b)) < 2 ^ 53 - 1" by fact
  qed
  finally have tn: "termNumbers t
      = (\<lambda>n. Fin (of_int n)) ` {int (decimalValue (trim a)) .. int (decimalValue (trim b))}" .
  have "(Fin (of_int n) \<in> termNumbers t)
      = (n \<in> {int (decimalValue (trim a)) .. int (decimalValue (trim b))})"
    unfolding tn by (auto simp only: image_iff Fin_of_int_inj)
  also have "\<dots> = (n \<in> spec_term_pages t)"
    using False ab da db by (simp add: spec_term_pages_def)
  finally show ?thesis .
qed

lemma termNumbers_non_numeric:
  assumes "non_numeric t"
  shows "Fin q \<notin> termNumbers t"
proof (cases "CHR ''-'' \<in> set t")
  case False
  with assms show ?thesis by (simp add: non_numeric_def termNumbers_def js_includes_def)
next
  case True
  show ?thesis
  proof (cases "map Number (js_split CHR ''-'' t)")
    case Nil
    with True show ?thesis by (simp add: termNumbers_def js_includes_def)
  next
    case (Cons s rest)
    show ?thesis
    proof (cases rest)
      case Nil
      with Cons True show ?thesis by (simp add: termNumbers_def js_includes_def)
    next
      case (Cons e more)
      with \<open>map Number (js_split CHR ''-'' t) = s # rest\<close> True assms
      have "s = NaN \<or> e = NaN" by (simp add: non_numeric_def js_includes_def)
      from loopValues_NaN[OF this] Cons \<open>map Number (js_split CHR ''-'' t) = s # rest\<close> True
      show ?thesis by (simp add: termNumbers_def js_includes_def)
    qed
  qed
qed

lemma addTerm_result:
  assumes "addTerm t S = Some r"
  shows "case r of Inl err \<Rightarrow> err = RangeError | Inr S' \<Rightarrow> set S' = set S \<union> termNumbers t"
proof (cases "CHR ''-'' \<in> set t")
  case False
  with assms have r: "r = setAdd (Number t) S" by (simp add: addTerm_def js_includes_def)
  from False have tn: "termNumbers t = {Number t}" by (simp add: termNumbers_def js_includes_def)
  show ?thesis
  proof (cases r)
    case (Inl err)
    with r have "setAdd (Number t) S = Inl err" by simp
    from setAdd_Inl[OF this] Inl show ?thesis by simp
  next
    case (Inr S')
    with r have "setAdd (Number t) S = Inr S'" by simp
    from setAdd_Inr[OF this] Inr tn show ?thesis by simp
  qed
next
  case True
  show ?thesis
  proof (cases "map Number (js_split CHR ''-'' t)")
    case Nil
    with True assms show ?thesis by (auto simp: addTerm_def termNumbers_def js_includes_def)
  next
    case (Cons s rest)
    show ?thesis
    proof (cases rest)
      case Nil
      with Cons True assms show ?thesis
        by (auto simp: addTerm_def termNumbers_def js_includes_def)
    next
      case (Cons e more)
      with \<open>map Number (js_split CHR ''-'' t) = s # rest\<close> True assms
      have "rangeLoop s e S = Some r" by (simp add: addTerm_def js_includes_def)
      note rr = rangeLoop_result[OF this]
      from Cons \<open>map Number (js_split CHR ''-'' t) = s # rest\<close>
      have eq: "map Number (js_split CHR ''-'' t) = s # e # more" by simp
      have tn: "termNumbers t = loopValues s e"
        unfolding termNumbers_def eq using True by (simp add: js_includes_def)
      show ?thesis unfolding tn by (rule rr)
    qed
  qed
qed

lemma forEachRange_result:
  "forEachRange ts S = Some r \<Longrightarrow>
   (case r of Inl err \<Rightarrow> err = RangeError
    | Inr S' \<Rightarrow> set S' = set S \<union> (\<Union>t \<in> set ts. termNumbers t))"
proof (induction ts arbitrary: S)
  case Nil
  then show ?case by auto
next
  case (Cons t ts)
  from Cons.prems obtain r1 where a: "addTerm t S = Some r1"
    by (cases "addTerm t S") simp_all
  note ar = addTerm_result[OF a]
  show ?case
  proof (cases r1)
    case (Inl err)
    with a Cons.prems have "r = Inl err" by simp
    with ar Inl show ?thesis by simp
  next
    case (Inr S1)
    with a Cons.prems have "forEachRange ts S1 = Some r" by simp
    from Cons.IH[OF this] ar Inr show ?thesis by (cases r) auto
  qed
qed

lemma loop_bounded_terminates:
  assumes "loop_bounded s e"
  shows "\<exists>r. rangeLoop s e S = Some r"
proof (cases "jsLe s e")
  case False
  then show ?thesis by (subst rangeLoop.simps) simp
next
  case True
  with assms obtain a b where ab: "s = Fin a" "e = Fin b"
    by (cases s; cases e) (simp_all add: loop_bounded_def)
  with True have "a \<le> b" by (simp add: jsLe_def)
  with assms ab have "- (2 ^ 53) \<le> a" "b < 2 ^ 53 - 1" by (simp_all add: loop_bounded_def)
  from rangeLoop_terminates[OF this] ab show ?thesis by simp
qed

lemma addTerm_terminates: "bounded_term t \<Longrightarrow> \<exists>r. addTerm t S = Some r"
  by (auto simp: bounded_term_def addTerm_def split: list.splits intro: loop_bounded_terminates)

lemma forEachRange_terminates:
  "list_all bounded_term ts \<Longrightarrow> \<exists>r. forEachRange ts S = Some r"
proof (induction ts arbitrary: S)
  case Nil
  then show ?case by simp
next
  case (Cons t ts)
  then have "bounded_term t" and rest: "list_all bounded_term ts" by simp_all
  from addTerm_terminates[OF this(1), of S] obtain r1 where a: "addTerm t S = Some r1" by blast
  show ?case
  proof (cases r1)
    case (Inl err)
    with a show ?thesis by simp
  next
    case (Inr S1)
    from Cons.IH[OF rest, of S1] obtain r where "forEachRange ts S1 = Some r" by blast
    with a Inr show ?thesis by simp
  qed
qed

lemma jsInc_int:
  assumes "\<bar>n + 1\<bar> < 2 ^ 53"
  shows "jsInc (Fin (of_int n)) = Fin (of_int (n + 1))"
proof -
  have "toDouble (of_int (n + 1)) = Fin (of_int (n + 1))" using assms by (rule toDouble_int)
  then show ?thesis by (simp add: jsInc_def)
qed

lemma Number_1: "Number ''1'' = Fin 1"
  using Number_digits[of "''1''"]
  by (simp add: trim_def isWhiteSpace_def isDigits_def isDigit_def decimalValue_def digitVal_def)

lemma Number_2: "Number ''2'' = Fin 2"
  using Number_digits[of "''2''"]
  by (simp add: trim_def isWhiteSpace_def isDigits_def isDigit_def decimalValue_def digitVal_def)

lemma Number_3: "Number ''3'' = Fin 3"
  using Number_digits[of "''3''"]
  by (simp add: trim_def isWhiteSpace_def isDigits_def isDigit_def decimalValue_def digitVal_def)

lemma Number_4: "Number ''4'' = Fin 4"
  using Number_digits[of "''4''"]
  by (simp add: trim_def isWhiteSpace_def isDigits_def isDigit_def decimalValue_def digitVal_def)

lemma Number_5: "Number ''5'' = Fin 5"
  using Number_digits[of "''5''"]
  by (simp add: trim_def isWhiteSpace_def isDigits_def isDigit_def decimalValue_def digitVal_def)

lemma Number_empty: "Number [] = Fin 0"
  by (simp add: Number_def trim_def)

lemma Number_x: "Number ''x'' = NaN"
  by (simp add: number_defs Let_def)

lemma jsInc_small:
  "jsInc (Fin 0) = Fin 1" "jsInc (Fin 1) = Fin 2" "jsInc (Fin 2) = Fin 3"
  "jsInc (Fin 3) = Fin 4" "jsInc (Fin 4) = Fin 5"
  using jsInc_int[of 0] jsInc_int[of 1] jsInc_int[of 2] jsInc_int[of 3] jsInc_int[of 4]
  by simp_all

lemmas small_numbers = Number_1 Number_2 Number_3 Number_4 Number_5 Number_empty Number_x

lemma parseRanges_demo: "parseRanges ''1,x,3-4'' = Some (Inr [Fin 1, NaN, Fin 3, Fin 4])"
  by (simp add: parseRanges_def addTerm_def js_includes_def small_numbers jsInc_small
      rangeLoop.simps jsLe_def setAdd_def setMaxSize_def)

lemma parseRanges_2_3: "parseRanges ''2-3'' = Some (Inr [Fin 2, Fin 3])"
  by (simp add: parseRanges_def addTerm_def js_includes_def small_numbers jsInc_small
      rangeLoop.simps jsLe_def setAdd_def setMaxSize_def)

lemma parseRanges_5_minus_2: "parseRanges ''5,-2'' = Some (Inr [Fin 5, Fin 0, Fin 1, Fin 2])"
  by (simp add: parseRanges_def addTerm_def js_includes_def small_numbers jsInc_small
      rangeLoop.simps jsLe_def setAdd_def setMaxSize_def)

text \<open>
  Other forms of a number that \<^verbatim>\<open>Number\<close> reads: a fraction, an exponent, a
  hexadecimal literal, a trailing point, white space around the digits.
\<close>

lemma Number_forms:
  "Number ''2.0'' = Fin 2" "Number ''1e0'' = Fin 1" "Number ''0x2'' = Fin 2"
  "Number ''2.'' = Fin 2" "Number '' 3'' = Fin 3"
  using toDouble_int[of 2] toDouble_int[of 1] toDouble_int[of 3]
  by (simp_all add: number_defs Let_def radixValue_def radixDigitVal_def)

section \<open>Bulk delete\<close>

lemma markDeleted_Some:
  "prev file = Some pv \<Longrightarrow>
   markDeleted T prev file =
     Some \<lparr>pages = map (\<lambda>p. p\<lparr>deleted := deleted p \<or> setHas T (Fin (of_int (pageNo p)))\<rparr>)
                      (pages pv)\<rparr>"
  by (simp add: markDeleted_def)

lemma markDeleted_dom: "dom (markDeleted T prev) = dom prev"
  by (auto simp: markDeleted_def dom_def split: option.splits)

lemma markDeleted_idem: "markDeleted T (markDeleted T prev) = markDeleted T prev"
proof
  fix g
  show "markDeleted T (markDeleted T prev) g = markDeleted T prev g"
  proof (cases "prev g")
    case None
    then show ?thesis by (simp add: markDeleted_def)
  next
    case (Some pv)
    then show ?thesis by (simp add: markDeleted_def comp_def)
  qed
qed

lemma markDeleted_empty: "markDeleted [] prev = prev"
proof
  fix g
  show "markDeleted [] prev g = prev g"
    by (cases "prev g") (simp_all add: markDeleted_def setHas_def)
qed

lemma parseRanges_failure: "parseRanges input = Some (Inl e) \<Longrightarrow> e = RangeError"
  unfolding parseRanges_def by (drule forEachRange_result) simp

lemma parseRanges_set:
  "parseRanges input = Some (Inr T) \<Longrightarrow>
   set T = (\<Union>t \<in> set (js_split CHR '','' input). termNumbers t)"
  unfolding parseRanges_def by (drule forEachRange_result) simp

lemma applyBulkDeleteAll_returns:
  assumes "applyBulkDeleteAll st = Some (st', err)"
  shows "\<exists>T.
      (err = None
         \<and> (if trim (deleteInput st) = [] then T = []
            else parseRanges (deleteInput st) = Some (Inr T))
       \<or> err = Some RangeError \<and> T = [] \<and> trim (deleteInput st) \<noteq> []
         \<and> parseRanges (deleteInput st) = Some (Inl RangeError))
    \<and> st' = st\<lparr>previews := markDeleted T (previews st)\<rparr>"
proof (cases "trim (deleteInput st) = []")
  case True
  with assms have "st' = st" "err = None" by (simp_all add: applyBulkDeleteAll_def)
  with True show ?thesis by (simp add: markDeleted_empty)
next
  case False
  show ?thesis
  proof (cases "parseRanges (deleteInput st)")
    case None
    with False assms show ?thesis by (simp add: applyBulkDeleteAll_def)
  next
    case (Some r)
    show ?thesis
    proof (cases r)
      case (Inl e)
      with Some have "e = RangeError" by (simp add: parseRanges_failure)
      moreover from Inl Some False assms have "st' = st" "err = Some e"
        by (simp_all add: applyBulkDeleteAll_def)
      ultimately show ?thesis using False Some Inl by (simp add: markDeleted_empty)
    next
      case (Inr T)
      with Some False assms have "st' = st\<lparr>previews := markDeleted T (previews st)\<rparr>" "err = None"
        by (simp_all add: applyBulkDeleteAll_def)
      with False Some Inr show ?thesis by simp
    qed
  qed
qed

lemma applyBulkDeleteAll_again:
  assumes "applyBulkDeleteAll st = Some (st', err)"
  shows "applyBulkDeleteAll st' = Some (st', err)"
proof -
  from applyBulkDeleteAll_returns[OF assms] obtain T where
    how: "err = None
         \<and> (if trim (deleteInput st) = [] then T = []
            else parseRanges (deleteInput st) = Some (Inr T))
       \<or> err = Some RangeError \<and> T = [] \<and> trim (deleteInput st) \<noteq> []
         \<and> parseRanges (deleteInput st) = Some (Inl RangeError)"
    and st': "st' = st\<lparr>previews := markDeleted T (previews st)\<rparr>"
    by blast
  from how show ?thesis
  proof
    assume a: "err = None
         \<and> (if trim (deleteInput st) = [] then T = []
            else parseRanges (deleteInput st) = Some (Inr T))"
    show ?thesis
    proof (cases "trim (deleteInput st) = []")
      case True
      with a show ?thesis by (simp add: st' applyBulkDeleteAll_def)
    next
      case False
      with a show ?thesis by (simp add: st' applyBulkDeleteAll_def markDeleted_idem)
    qed
  next
    assume "err = Some RangeError \<and> T = [] \<and> trim (deleteInput st) \<noteq> []
         \<and> parseRanges (deleteInput st) = Some (Inl RangeError)"
    then show ?thesis by (simp add: st' applyBulkDeleteAll_def markDeleted_empty)
  qed
qed

lemma applyBulkDeleteAll_terminates:
  assumes "list_all bounded_term (js_split CHR '','' (deleteInput st))"
  shows "\<exists>r. applyBulkDeleteAll st = Some r"
proof -
  from forEachRange_terminates[OF assms, of "[]"]
  obtain r where "parseRanges (deleteInput st) = Some r" by (auto simp: parseRanges_def)
  then show ?thesis by (cases r) (simp_all add: applyBulkDeleteAll_def)
qed

text \<open>The inputs \<^verbatim>\<open>2-3\<close>, \<^verbatim>\<open>1,x,3-4\<close> and \<^verbatim>\<open>5,-2\<close> on the session.\<close>

lemma demo_marked_2_3:
  "markDeleted [Fin 2, Fin 3] (previews demo_state)
     = [''a.pdf'' \<mapsto>
          \<lparr>pages = [demo_p1, demo_p2\<lparr>deleted := True\<rparr>, demo_p3\<lparr>deleted := True\<rparr>]\<rparr>]"
  by (rule ext) (simp add: markDeleted_def demo_defs setHas_def)

lemma applyBulkDeleteAll_demo:
  "applyBulkDeleteAll (demo_state\<lparr>deleteInput := ''2-3''\<rparr>)
     = Some (demo_state\<lparr>deleteInput := ''2-3'',
              previews := [''a.pdf'' \<mapsto>
                \<lparr>pages = [demo_p1, demo_p2\<lparr>deleted := True\<rparr>, demo_p3\<lparr>deleted := True\<rparr>]\<rparr>]\<rparr>, None)"
proof -
  have t: "trim ''2-3'' \<noteq> []" by (simp add: trim_def isWhiteSpace_def)
  show ?thesis using parseRanges_2_3 t demo_marked_2_3 by (simp add: applyBulkDeleteAll_def)
qed

lemma bounded_demo: "list_all bounded_term (js_split CHR '','' ''2-3'')"
  by (simp add: bounded_term_def js_includes_def small_numbers loop_bounded_def)

lemma applyBulkDeleteAll_demo_terms:
  "applyBulkDeleteAll (demo_state\<lparr>deleteInput := ''1,x,3-4''\<rparr>)
     = Some (demo_state\<lparr>deleteInput := ''1,x,3-4'',
              previews := [''a.pdf'' \<mapsto>
                \<lparr>pages = [demo_p1\<lparr>deleted := True\<rparr>, demo_p2, demo_p3\<lparr>deleted := True\<rparr>]\<rparr>]\<rparr>, None)"
proof -
  have t: "trim ''1,x,3-4'' \<noteq> []" by (simp add: trim_def isWhiteSpace_def)
  have m: "markDeleted [Fin 1, NaN, Fin 3, Fin 4] (previews demo_state)
     = [''a.pdf'' \<mapsto>
          \<lparr>pages = [demo_p1\<lparr>deleted := True\<rparr>, demo_p2, demo_p3\<lparr>deleted := True\<rparr>]\<rparr>]"
    by (rule ext) (simp add: markDeleted_def demo_defs setHas_def)
  show ?thesis using parseRanges_demo t m by (simp add: applyBulkDeleteAll_def)
qed

lemma bounded_demo_terms: "list_all bounded_term (js_split CHR '','' ''1,x,3-4'')"
  by (simp add: bounded_term_def js_includes_def small_numbers loop_bounded_def)

lemma applyBulkDeleteAll_demo_malformed:
  "applyBulkDeleteAll (demo_state\<lparr>deleteInput := ''5,-2''\<rparr>)
     = Some (demo_state\<lparr>deleteInput := ''5,-2'',
              previews := [''a.pdf'' \<mapsto>
                \<lparr>pages = [demo_p1\<lparr>deleted := True\<rparr>, demo_p2\<lparr>deleted := True\<rparr>, demo_p3]\<rparr>]\<rparr>, None)"
proof -
  have t: "trim ''5,-2'' \<noteq> []" by (simp add: trim_def isWhiteSpace_def)
  have m: "markDeleted [Fin 5, Fin 0, Fin 1, Fin 2] (previews demo_state)
     = [''a.pdf'' \<mapsto>
          \<lparr>pages = [demo_p1\<lparr>deleted := True\<rparr>, demo_p2\<lparr>deleted := True\<rparr>, demo_p3]\<rparr>]"
    by (rule ext) (simp add: markDeleted_def demo_defs setHas_def)
  show ?thesis using parseRanges_5_minus_2 t m by (simp add: applyBulkDeleteAll_def)
qed

text \<open>
  C4. On every expression each of whose terms is bounded the handler returns or
  throws. Whenever it returns, there is the set \<open>toDelete\<close> it parsed from the input
  (the empty set for an input of white space, where it returns at once) such that in
  every document every descriptor keeps its place and its flag becomes
  \<open>deleted \<or> toDelete.has(pageNo)\<close>; whenever it throws, the failure is the
  \<^verbatim>\<open>RangeError\<close> of a full set, thrown before \<^verbatim>\<open>setPreviews\<close>, so no flag changes. In
  both cases a flag that was set stays set, and applying the handler to the state it
  left ends the same way and leaves that same state.
\<close>

theorem applyBulkDeleteAll_monotone_idempotent:
  "(list_all bounded_term (js_split CHR '','' (deleteInput st))
      \<longrightarrow> (\<exists>r. applyBulkDeleteAll st = Some r))
   \<and> (\<forall>st' err. applyBulkDeleteAll st = Some (st', err) \<longrightarrow>
        (\<exists>toDelete.
            (err = None
               \<and> (if trim (deleteInput st) = [] then toDelete = []
                  else parseRanges (deleteInput st) = Some (Inr toDelete))
             \<or> err = Some RangeError \<and> toDelete = [] \<and> trim (deleteInput st) \<noteq> []
               \<and> parseRanges (deleteInput st) = Some (Inl RangeError))
          \<and> (\<forall>file pv. previews st file = Some pv \<longrightarrow>
                (\<exists>pv'. previews st' file = Some pv'
                   \<and> length (pages pv') = length (pages pv)
                   \<and> (\<forall>i < length (pages pv).
                         deleted (pages pv' ! i)
                           = (deleted (pages pv ! i)
                              \<or> setHas toDelete (Fin (of_int (pageNo (pages pv ! i)))))
                         \<and> (deleted (pages pv ! i) \<longrightarrow> deleted (pages pv' ! i))))))
        \<and> applyBulkDeleteAll st' = Some (st', err))"
proof (intro conjI allI impI)
  assume "list_all bounded_term (js_split CHR '','' (deleteInput st))"
  then show "\<exists>r. applyBulkDeleteAll st = Some r" by (rule applyBulkDeleteAll_terminates)
next
  fix st' err
  assume a: "applyBulkDeleteAll st = Some (st', err)"
  then show "applyBulkDeleteAll st' = Some (st', err)" by (rule applyBulkDeleteAll_again)
  from applyBulkDeleteAll_returns[OF a] obtain T where
    how: "err = None
         \<and> (if trim (deleteInput st) = [] then T = []
            else parseRanges (deleteInput st) = Some (Inr T))
       \<or> err = Some RangeError \<and> T = [] \<and> trim (deleteInput st) \<noteq> []
         \<and> parseRanges (deleteInput st) = Some (Inl RangeError)"
    and st': "st' = st\<lparr>previews := markDeleted T (previews st)\<rparr>"
    by blast
  have flags: "\<forall>file pv. previews st file = Some pv \<longrightarrow>
          (\<exists>pv'. previews st' file = Some pv' \<and> length (pages pv') = length (pages pv)
             \<and> (\<forall>i < length (pages pv).
                   deleted (pages pv' ! i)
                     = (deleted (pages pv ! i) \<or> setHas T (Fin (of_int (pageNo (pages pv ! i)))))
                   \<and> (deleted (pages pv ! i) \<longrightarrow> deleted (pages pv' ! i))))"
    by (simp add: st' markDeleted_Some)
  from how flags
  show "\<exists>toDelete.
            (err = None
               \<and> (if trim (deleteInput st) = [] then toDelete = []
                  else parseRanges (deleteInput st) = Some (Inr toDelete))
             \<or> err = Some RangeError \<and> toDelete = [] \<and> trim (deleteInput st) \<noteq> []
               \<and> parseRanges (deleteInput st) = Some (Inl RangeError))
          \<and> (\<forall>file pv. previews st file = Some pv \<longrightarrow>
                (\<exists>pv'. previews st' file = Some pv'
                   \<and> length (pages pv') = length (pages pv)
                   \<and> (\<forall>i < length (pages pv).
                         deleted (pages pv' ! i)
                           = (deleted (pages pv ! i)
                              \<or> setHas toDelete (Fin (of_int (pageNo (pages pv ! i)))))
                         \<and> (deleted (pages pv ! i) \<longrightarrow> deleted (pages pv' ! i)))))"
    by (intro exI[of _ T] conjI)
qed

theorem applyBulkDeleteAll_monotone_idempotent_witness:
  "list_all bounded_term (js_split CHR '','' ''2-3'')
   \<and> applyBulkDeleteAll (demo_state\<lparr>deleteInput := ''2-3''\<rparr>)
     = Some (demo_state\<lparr>deleteInput := ''2-3'',
              previews := [''a.pdf'' \<mapsto>
                \<lparr>pages = [demo_p1, demo_p2\<lparr>deleted := True\<rparr>, demo_p3\<lparr>deleted := True\<rparr>]\<rparr>]\<rparr>, None)
   \<and> applyBulkDeleteAll (demo_state\<lparr>deleteInput := ''2-3'',
              previews := [''a.pdf'' \<mapsto>
                \<lparr>pages = [demo_p1, demo_p2\<lparr>deleted := True\<rparr>, demo_p3\<lparr>deleted := True\<rparr>]\<rparr>]\<rparr>)
     = Some (demo_state\<lparr>deleteInput := ''2-3'',
              previews := [''a.pdf'' \<mapsto>
                \<lparr>pages = [demo_p1, demo_p2\<lparr>deleted := True\<rparr>, demo_p3\<lparr>deleted := True\<rparr>]\<rparr>]\<rparr>, None)"
proof -
  from applyBulkDeleteAll_monotone_idempotent[of "demo_state\<lparr>deleteInput := ''2-3''\<rparr>"]
    applyBulkDeleteAll_demo
  have "applyBulkDeleteAll (demo_state\<lparr>deleteInput := ''2-3'',
              previews := [''a.pdf'' \<mapsto>
                \<lparr>pages = [demo_p1, demo_p2\<lparr>deleted := True\<rparr>, demo_p3\<lparr>deleted := True\<rparr>]\<rparr>]\<rparr>)
     = Some (demo_state\<lparr>deleteInput := ''2-3'',
              previews := [''a.pdf'' \<mapsto>
                \<lparr>pages = [demo_p1, demo_p2\<lparr>deleted := True\<rparr>, demo_p3\<lparr>deleted := True\<rparr>]\<rparr>]\<rparr>, None)"
    by blast
  with applyBulkDeleteAll_demo bounded_demo show ?thesis by simp
qed

text \<open>
  C10. On every expression each of whose terms is bounded the handler returns or
  throws. Whenever it does either, nothing but \<^verbatim>\<open>previews\<close> differs from the state
  before; \<^verbatim>\<open>previews\<close> has the same documents, and every document has the same
  number of descriptors, in the same order, each with the \<open>id\<close>, the \<open>pageNo\<close> and the
  \<open>img\<close> it had: a descriptor after is the descriptor before with at most its
  \<open>deleted\<close> field changed.
\<close>

theorem applyBulkDeleteAll_frame:
  "(list_all bounded_term (js_split CHR '','' (deleteInput st))
      \<longrightarrow> (\<exists>r. applyBulkDeleteAll st = Some r))
   \<and> (\<forall>st' err. applyBulkDeleteAll st = Some (st', err) \<longrightarrow>
        st' = st\<lparr>previews := previews st'\<rparr>
      \<and> dom (previews st') = dom (previews st)
      \<and> (\<forall>file pv. previews st file = Some pv \<longrightarrow>
            (\<exists>pv'. previews st' file = Some pv'
               \<and> length (pages pv') = length (pages pv)
               \<and> map id' (pages pv') = map id' (pages pv)
               \<and> map pageNo (pages pv') = map pageNo (pages pv)
               \<and> map img (pages pv') = map img (pages pv)
               \<and> (\<forall>i < length (pages pv).
                     pages pv' ! i = (pages pv ! i)\<lparr>deleted := deleted (pages pv' ! i)\<rparr>))))"
proof (intro conjI allI impI)
  assume "list_all bounded_term (js_split CHR '','' (deleteInput st))"
  then show "\<exists>r. applyBulkDeleteAll st = Some r" by (rule applyBulkDeleteAll_terminates)
next
  fix st' err
  assume a: "applyBulkDeleteAll st = Some (st', err)"
  from applyBulkDeleteAll_returns[OF a] obtain T where
    st': "st' = st\<lparr>previews := markDeleted T (previews st)\<rparr>"
    by blast
  show "st' = st\<lparr>previews := previews st'\<rparr>" by (simp add: st')
  show "dom (previews st') = dom (previews st)" by (simp add: st' markDeleted_dom)
  fix g pv
  assume "previews st g = Some pv"
  then show "\<exists>pv'. previews st' g = Some pv'
               \<and> length (pages pv') = length (pages pv)
               \<and> map id' (pages pv') = map id' (pages pv)
               \<and> map pageNo (pages pv') = map pageNo (pages pv)
               \<and> map img (pages pv') = map img (pages pv)
               \<and> (\<forall>i < length (pages pv).
                     pages pv' ! i = (pages pv ! i)\<lparr>deleted := deleted (pages pv' ! i)\<rparr>)"
    by (simp add: st' markDeleted_Some comp_def)
qed

theorem applyBulkDeleteAll_frame_witness:
  "list_all bounded_term (js_split CHR '','' ''2-3'')
   \<and> applyBulkDeleteAll (demo_state\<lparr>deleteInput := ''2-3''\<rparr>)
     = Some (demo_state\<lparr>deleteInput := ''2-3'',
              previews := [''a.pdf'' \<mapsto>
                \<lparr>pages = [demo_p1, demo_p2\<lparr>deleted := True\<rparr>, demo_p3\<lparr>deleted := True\<rparr>]\<rparr>]\<rparr>, None)
   \<and> dom [''a.pdf'' \<mapsto>
           \<lparr>pages = [demo_p1, demo_p2\<lparr>deleted := True\<rparr>, demo_p3\<lparr>deleted := True\<rparr>]\<rparr>]
       = dom (previews demo_state)
   \<and> map pageNo [demo_p1, demo_p2\<lparr>deleted := True\<rparr>, demo_p3\<lparr>deleted := True\<rparr>]
       = map pageNo [demo_p1, demo_p2, demo_p3]"
proof -
  have pv: "previews (demo_state\<lparr>deleteInput := ''2-3''\<rparr>) ''a.pdf''
      = Some \<lparr>pages = [demo_p1, demo_p2, demo_p3]\<rparr>"
    by (simp add: demo_state_def)
  from applyBulkDeleteAll_frame[of "demo_state\<lparr>deleteInput := ''2-3''\<rparr>"]
    applyBulkDeleteAll_demo
  have f: "dom (previews (demo_state\<lparr>deleteInput := ''2-3'',
              previews := [''a.pdf'' \<mapsto>
                \<lparr>pages = [demo_p1, demo_p2\<lparr>deleted := True\<rparr>, demo_p3\<lparr>deleted := True\<rparr>]\<rparr>]\<rparr>))
       = dom (previews (demo_state\<lparr>deleteInput := ''2-3''\<rparr>))
     \<and> (\<forall>file pv. previews (demo_state\<lparr>deleteInput := ''2-3''\<rparr>) file = Some pv \<longrightarrow>
            (\<exists>pv'. previews (demo_state\<lparr>deleteInput := ''2-3'',
              previews := [''a.pdf'' \<mapsto>
                \<lparr>pages = [demo_p1, demo_p2\<lparr>deleted := True\<rparr>, demo_p3\<lparr>deleted := True\<rparr>]\<rparr>]\<rparr>) file = Some pv'
               \<and> map pageNo (pages pv') = map pageNo (pages pv)))"
    by blast
  from f pv have "\<exists>pv'. previews (demo_state\<lparr>deleteInput := ''2-3'',
              previews := [''a.pdf'' \<mapsto>
                \<lparr>pages = [demo_p1, demo_p2\<lparr>deleted := True\<rparr>, demo_p3\<lparr>deleted := True\<rparr>]\<rparr>]\<rparr>) ''a.pdf'' = Some pv'
               \<and> map pageNo (pages pv') = map pageNo [demo_p1, demo_p2, demo_p3]"
    by fastforce
  then have "map pageNo [demo_p1, demo_p2\<lparr>deleted := True\<rparr>, demo_p3\<lparr>deleted := True\<rparr>]
       = map pageNo [demo_p1, demo_p2, demo_p3]"
    by (simp del: list.map)
  with f applyBulkDeleteAll_demo bounded_demo show ?thesis by (simp del: list.map)
qed

lemma toDouble_not_NaN: "toDouble x \<noteq> NaN"
  by (simp add: toDouble_def Let_def)

lemma Number_digits_toDouble:
  assumes "isDigits (trim t)"
  shows "Number t = toDouble (of_nat (decimalValue (trim t)))"
  using decimal_digits[OF assms] nonDecimalRadix_digits[OF assms]
  by (simp add: Number_def Let_def)

lemma Number_digits_not_NaN: "isDigits (trim t) \<Longrightarrow> Number t \<noteq> NaN"
  by (simp add: Number_digits_toDouble toDouble_not_NaN)

lemma non_numeric_spec:
  assumes "non_numeric t"
  shows "spec_term_pages t = {}"
proof (cases "CHR ''-'' \<in> set t")
  case False
  with assms have nan: "Number t = NaN" by (simp add: non_numeric_def js_includes_def)
  with Number_digits_not_NaN[of t] have nd: "\<not> isDigits (trim t)" by blast
  from False have "js_split CHR ''-'' t = [t]" by (rule js_split_no_separator)
  with nd show ?thesis by (simp add: spec_term_pages_def)
next
  case True
  then have nd: "\<not> isDigits (trim t)" by (rule dash_not_digits)
  show ?thesis
  proof (cases "\<exists>a b. js_split CHR ''-'' t = [a, b]")
    case False
    with nd show ?thesis by (auto simp: spec_term_pages_def split: list.splits)
  next
    case True
    then obtain a b where ab: "js_split CHR ''-'' t = [a, b]" by blast
    with assms \<open>CHR ''-'' \<in> set t\<close> have "Number a = NaN \<or> Number b = NaN"
      by (simp add: non_numeric_def js_includes_def)
    with Number_digits_not_NaN[of a] Number_digits_not_NaN[of b]
    have "\<not> (isDigits (trim a) \<and> isDigits (trim b))" by blast
    with nd ab show ?thesis by (auto simp: spec_term_pages_def)
  qed
qed

lemma term_agrees:
  assumes "spec_well_formed t \<or> non_numeric t" and "0 < n"
  shows "(Fin (of_int n) \<in> termNumbers t) = (n \<in> spec_term_pages t)"
  using assms termNumbers_well_formed[of t n] termNumbers_non_numeric[of t "of_int n"]
    non_numeric_spec[of t]
  by auto

lemma applyBulkDeleteAll_flags:
  assumes "applyBulkDeleteAll st = Some (st', None)" and "previews st g = Some pv"
  shows "\<exists>pv'. previews st' g = Some pv' \<and> length (pages pv') = length (pages pv)
     \<and> (\<forall>i < length (pages pv).
           deleted (pages pv' ! i)
             = (deleted (pages pv ! i)
                \<or> trim (deleteInput st) \<noteq> []
                  \<and> (\<exists>t \<in> set (js_split CHR '','' (deleteInput st)).
                        Fin (of_int (pageNo (pages pv ! i))) \<in> termNumbers t)))"
proof -
  from applyBulkDeleteAll_returns[OF assms(1)] obtain T where
    how: "if trim (deleteInput st) = [] then T = []
          else parseRanges (deleteInput st) = Some (Inr T)"
    and st': "st' = st\<lparr>previews := markDeleted T (previews st)\<rparr>"
    by auto
  have has: "setHas T x = (trim (deleteInput st) \<noteq> []
      \<and> (\<exists>t \<in> set (js_split CHR '','' (deleteInput st)). x \<in> termNumbers t))" for x
  proof (cases "trim (deleteInput st) = []")
    case True
    with how show ?thesis by (simp add: setHas_def)
  next
    case False
    with how have "parseRanges (deleteInput st) = Some (Inr T)" by simp
    from parseRanges_set[OF this] False show ?thesis by (simp add: setHas_def)
  qed
  show ?thesis using assms(2) by (simp add: st' markDeleted_Some has)
qed

text \<open>
  C3, as the code has it. On every expression each of whose terms is bounded the
  handler returns or throws; what it throws is the \<^verbatim>\<open>RangeError\<close> of a full set, and
  then it marks nothing. Whenever it returns, the pages it marks are those whose
  \<open>pageNo\<close> is among the numbers of some term of the expression (none for an
  expression of white space), whatever the other terms are; the numbers of a term
  are what \<open>addTerm\<close> adds to an empty set. For a well-formed term these are the
  positive integers the term denotes, and a term that is not numeric has none. So on
  an expression whose terms are all well formed or not numeric the pages marked are
  those of the union of the well-formed terms.
\<close>

theorem applyBulkDeleteAll_marks_union_of_terms:
  "(list_all bounded_term (js_split CHR '','' (deleteInput st))
      \<longrightarrow> (\<exists>r. applyBulkDeleteAll st = Some r))
   \<and> (\<forall>st' e. applyBulkDeleteAll st = Some (st', Some e) \<longrightarrow> e = RangeError \<and> st' = st)
   \<and> (\<forall>st'. applyBulkDeleteAll st = Some (st', None) \<longrightarrow>
        (\<forall>file pv. previews st file = Some pv \<longrightarrow>
           (\<exists>pv'. previews st' file = Some pv' \<and> length (pages pv') = length (pages pv)
              \<and> (\<forall>i < length (pages pv).
                    deleted (pages pv' ! i)
                      = (deleted (pages pv ! i)
                         \<or> trim (deleteInput st) \<noteq> []
                           \<and> (\<exists>t \<in> set (js_split CHR '','' (deleteInput st)).
                                 Fin (of_int (pageNo (pages pv ! i))) \<in> termNumbers t))
                  \<and> (trim (deleteInput st) \<noteq> []
                       \<and> (\<forall>t \<in> set (js_split CHR '','' (deleteInput st)).
                             spec_well_formed t \<or> non_numeric t)
                       \<and> 0 < pageNo (pages pv ! i)
                      \<longrightarrow> deleted (pages pv' ! i)
                            = (deleted (pages pv ! i)
                               \<or> pageNo (pages pv ! i) \<in> spec_delete_set (deleteInput st)))))))
   \<and> (\<forall>t T. addTerm t [] = Some (Inr T) \<longrightarrow> set T = termNumbers t)
   \<and> (\<forall>t n. spec_well_formed t \<and> 0 < n
         \<longrightarrow> (Fin (of_int n) \<in> termNumbers t) = (n \<in> spec_term_pages t))
   \<and> (\<forall>t n. non_numeric t
         \<longrightarrow> Fin (of_int n) \<notin> termNumbers t \<and> n \<notin> spec_term_pages t)"
proof (intro conjI allI impI)
  assume "list_all bounded_term (js_split CHR '','' (deleteInput st))"
  then show "\<exists>r. applyBulkDeleteAll st = Some r" by (rule applyBulkDeleteAll_terminates)
next
  fix st' e
  assume a: "applyBulkDeleteAll st = Some (st', Some e)"
  from applyBulkDeleteAll_returns[OF a] show "e = RangeError" and "st' = st"
    by (auto simp: markDeleted_empty)
next
  fix st' g pv
  assume a: "applyBulkDeleteAll st = Some (st', None)" and pv: "previews st g = Some pv"
  from applyBulkDeleteAll_flags[OF a pv] obtain pv' where
    pv': "previews st' g = Some pv'" and len: "length (pages pv') = length (pages pv)"
    and fl: "\<forall>i < length (pages pv).
           deleted (pages pv' ! i)
             = (deleted (pages pv ! i)
                \<or> trim (deleteInput st) \<noteq> []
                  \<and> (\<exists>t \<in> set (js_split CHR '','' (deleteInput st)).
                        Fin (of_int (pageNo (pages pv ! i))) \<in> termNumbers t))"
    by blast
  have "\<forall>i < length (pages pv).
          deleted (pages pv' ! i)
            = (deleted (pages pv ! i)
               \<or> trim (deleteInput st) \<noteq> []
                 \<and> (\<exists>t \<in> set (js_split CHR '','' (deleteInput st)).
                       Fin (of_int (pageNo (pages pv ! i))) \<in> termNumbers t))
        \<and> (trim (deleteInput st) \<noteq> []
             \<and> (\<forall>t \<in> set (js_split CHR '','' (deleteInput st)).
                   spec_well_formed t \<or> non_numeric t)
             \<and> 0 < pageNo (pages pv ! i)
            \<longrightarrow> deleted (pages pv' ! i)
                  = (deleted (pages pv ! i)
                     \<or> pageNo (pages pv ! i) \<in> spec_delete_set (deleteInput st)))"
  proof (intro allI impI conjI)
    fix i
    assume i: "i < length (pages pv)"
    with fl show "deleted (pages pv' ! i)
            = (deleted (pages pv ! i)
               \<or> trim (deleteInput st) \<noteq> []
                 \<and> (\<exists>t \<in> set (js_split CHR '','' (deleteInput st)).
                       Fin (of_int (pageNo (pages pv ! i))) \<in> termNumbers t))"
      by blast
    assume h: "trim (deleteInput st) \<noteq> []
             \<and> (\<forall>t \<in> set (js_split CHR '','' (deleteInput st)).
                   spec_well_formed t \<or> non_numeric t)
             \<and> 0 < pageNo (pages pv ! i)"
    then have "(\<exists>t \<in> set (js_split CHR '','' (deleteInput st)).
                  Fin (of_int (pageNo (pages pv ! i))) \<in> termNumbers t)
        = (pageNo (pages pv ! i) \<in> spec_delete_set (deleteInput st))"
      by (simp add: spec_delete_set_def term_agrees)
    with fl i h show "deleted (pages pv' ! i)
                  = (deleted (pages pv ! i)
                     \<or> pageNo (pages pv ! i) \<in> spec_delete_set (deleteInput st))"
      by simp
  qed
  with pv' len
  show "\<exists>pv'. previews st' g = Some pv' \<and> length (pages pv') = length (pages pv)
              \<and> (\<forall>i < length (pages pv).
                    deleted (pages pv' ! i)
                      = (deleted (pages pv ! i)
                         \<or> trim (deleteInput st) \<noteq> []
                           \<and> (\<exists>t \<in> set (js_split CHR '','' (deleteInput st)).
                                 Fin (of_int (pageNo (pages pv ! i))) \<in> termNumbers t))
                  \<and> (trim (deleteInput st) \<noteq> []
                       \<and> (\<forall>t \<in> set (js_split CHR '','' (deleteInput st)).
                             spec_well_formed t \<or> non_numeric t)
                       \<and> 0 < pageNo (pages pv ! i)
                      \<longrightarrow> deleted (pages pv' ! i)
                            = (deleted (pages pv ! i)
                               \<or> pageNo (pages pv ! i) \<in> spec_delete_set (deleteInput st))))"
    by blast
next
  fix t T
  assume "addTerm t [] = Some (Inr T)"
  from addTerm_result[OF this] show "set T = termNumbers t" by simp
next
  fix t :: string and n :: int
  assume "spec_well_formed t \<and> 0 < n"
  then show "(Fin (of_int n) \<in> termNumbers t) = (n \<in> spec_term_pages t)"
    by (simp add: termNumbers_well_formed)
next
  fix t :: string and n :: int
  assume nn: "non_numeric t"
  then show "Fin (of_int n) \<notin> termNumbers t" by (rule termNumbers_non_numeric)
  from nn show "n \<notin> spec_term_pages t" by (simp add: non_numeric_spec)
qed

text \<open>
  The example of the specification, \<^verbatim>\<open>1,x,3-4\<close>, on the session: pages 1 and 3 of the
  three are marked, page 2 is not.
\<close>

lemma demo_terms_kinds:
  "spec_well_formed ''1''" "non_numeric ''x''" "spec_well_formed ''3-4''"
  by (simp_all add: spec_well_formed_def non_numeric_def js_includes_def Number_x
      trim_def isWhiteSpace_def isDigits_def isDigit_def decimalValue_def digitVal_def)

theorem applyBulkDeleteAll_marks_union_of_terms_witness:
  "list_all bounded_term (js_split CHR '','' ''1,x,3-4'')
   \<and> spec_well_formed ''1'' \<and> non_numeric ''x'' \<and> spec_well_formed ''3-4''
   \<and> applyBulkDeleteAll (demo_state\<lparr>deleteInput := ''1,x,3-4''\<rparr>)
     = Some (demo_state\<lparr>deleteInput := ''1,x,3-4'',
              previews := [''a.pdf'' \<mapsto>
                \<lparr>pages = [demo_p1\<lparr>deleted := True\<rparr>, demo_p2, demo_p3\<lparr>deleted := True\<rparr>]\<rparr>]\<rparr>, None)
   \<and> 1 \<in> spec_delete_set ''1,x,3-4''
   \<and> 2 \<notin> spec_delete_set ''1,x,3-4''
   \<and> 3 \<in> spec_delete_set ''1,x,3-4''"
proof -
  let ?st = "demo_state\<lparr>deleteInput := ''1,x,3-4''\<rparr>"
  let ?st' = "demo_state\<lparr>deleteInput := ''1,x,3-4'',
              previews := [''a.pdf'' \<mapsto>
                \<lparr>pages = [demo_p1\<lparr>deleted := True\<rparr>, demo_p2, demo_p3\<lparr>deleted := True\<rparr>]\<rparr>]\<rparr>"
  have pv: "previews ?st ''a.pdf'' = Some \<lparr>pages = [demo_p1, demo_p2, demo_p3]\<rparr>"
    by (simp add: demo_state_def)
  have pv': "previews ?st' ''a.pdf''
      = Some \<lparr>pages = [demo_p1\<lparr>deleted := True\<rparr>, demo_p2, demo_p3\<lparr>deleted := True\<rparr>]\<rparr>"
    by simp
  have t: "trim (deleteInput ?st) \<noteq> []" by (simp add: trim_def isWhiteSpace_def)
  have k: "\<forall>t \<in> set (js_split CHR '','' (deleteInput ?st)). spec_well_formed t \<or> non_numeric t"
    using demo_terms_kinds by simp
  from applyBulkDeleteAll_marks_union_of_terms[of ?st, THEN conjunct2, THEN conjunct2,
      THEN conjunct1, rule_format, OF applyBulkDeleteAll_demo_terms pv]
  obtain pv' where p1: "previews ?st' ''a.pdf'' = Some pv'"
    and p2: "\<forall>i < length (pages \<lparr>pages = [demo_p1, demo_p2, demo_p3]\<rparr>).
        (trim (deleteInput ?st) \<noteq> []
           \<and> (\<forall>t \<in> set (js_split CHR '','' (deleteInput ?st)).
                 spec_well_formed t \<or> non_numeric t)
           \<and> 0 < pageNo (pages \<lparr>pages = [demo_p1, demo_p2, demo_p3]\<rparr> ! i)
          \<longrightarrow> deleted (pages pv' ! i)
                = (deleted (pages \<lparr>pages = [demo_p1, demo_p2, demo_p3]\<rparr> ! i)
                   \<or> pageNo (pages \<lparr>pages = [demo_p1, demo_p2, demo_p3]\<rparr> ! i)
                       \<in> spec_delete_set (deleteInput ?st)))"
    by blast
  from p1 pv' have e: "pv' = \<lparr>pages = [demo_p1\<lparr>deleted := True\<rparr>, demo_p2, demo_p3\<lparr>deleted := True\<rparr>]\<rparr>"
    by simp
  from p2 t k
  have f: "\<forall>i < 3. 0 < pageNo ([demo_p1, demo_p2, demo_p3] ! i)
      \<longrightarrow> deleted ([demo_p1\<lparr>deleted := True\<rparr>, demo_p2, demo_p3\<lparr>deleted := True\<rparr>] ! i)
           = (deleted ([demo_p1, demo_p2, demo_p3] ! i)
              \<or> pageNo ([demo_p1, demo_p2, demo_p3] ! i) \<in> spec_delete_set ''1,x,3-4'')"
    unfolding e by simp
  from f[rule_format, of 0] f[rule_format, of 1] f[rule_format, of 2]
  have "1 \<in> spec_delete_set ''1,x,3-4''" "2 \<notin> spec_delete_set ''1,x,3-4''"
    "3 \<in> spec_delete_set ''1,x,3-4''"
    by (simp_all add: demo_p1_def demo_p2_def demo_p3_def)
  with bounded_demo_terms demo_terms_kinds applyBulkDeleteAll_demo_terms show ?thesis by simp
qed

text \<open>
  The term \<^verbatim>\<open>-2\<close> is neither a positive integer nor a range of two integers, so the
  union of the well-formed terms of \<^verbatim>\<open>5,-2\<close> is \<open>{5}\<close> and no page of the three-page
  document is in it. The handler splits \<^verbatim>\<open>-2\<close> at \<^verbatim>\<open>-\<close> into the empty string and \<^verbatim>\<open>2\<close>,
  converts the empty string to \<open>0\<close>, and marks the pages 1 and 2.
\<close>

theorem applyBulkDeleteAll_malformed_term_counterexample:
  "applyBulkDeleteAll (demo_state\<lparr>deleteInput := ''5,-2''\<rparr>)
     = Some (demo_state\<lparr>deleteInput := ''5,-2'',
              previews := [''a.pdf'' \<mapsto>
                \<lparr>pages = [demo_p1\<lparr>deleted := True\<rparr>, demo_p2\<lparr>deleted := True\<rparr>, demo_p3]\<rparr>]\<rparr>, None)
   \<and> spec_delete_set ''5,-2'' = {5}
   \<and> \<not> spec_well_formed ''-2''"
proof -
  have "spec_delete_set ''5,-2'' = {5}"
    by (simp add: spec_delete_set_def spec_term_pages_def
        trim_def isWhiteSpace_def isDigits_def isDigit_def decimalValue_def digitVal_def)
  moreover have "\<not> spec_well_formed ''-2''"
    by (simp add: spec_well_formed_def
        trim_def isWhiteSpace_def isDigits_def isDigit_def decimalValue_def digitVal_def)
  ultimately show ?thesis using applyBulkDeleteAll_demo_malformed by simp
qed

section \<open>Inputs on which the bulk delete does not return\<close>

text \<open>
  At \<open>2^53\<close> the increment \<^verbatim>\<open>i++\<close> no longer moves the counter, \<open>2^53 + 1\<close> being
  rounded back to \<open>2^53\<close>: the loop of the term \<^verbatim>\<open>9007199254740992-9007199254740992\<close>
  never ends. The loop of the term \<^verbatim>\<open>1-16777217\<close> ends with the \<^verbatim>\<open>RangeError\<close> of a
  set that is full.
\<close>

lemma bitLength_pow2: "bitLength (2 ^ k) = Suc k"
proof (induction k)
  case 0
  show ?case by (simp add: bitLength.simps)
next
  case (Suc k)
  have "bitLength (2 ^ Suc k) = Suc (bitLength (2 ^ Suc k div 2))"
    by (subst bitLength.simps) simp
  with Suc show ?case by simp
qed

lemma bitLength_pow2_plus: "0 < k \<Longrightarrow> bitLength (2 ^ k + 1) = Suc k"
proof (induction k)
  case 0
  then show ?case by simp
next
  case (Suc k)
  have "(2 ^ Suc k + 1) div 2 = (2::nat) ^ k" by simp
  then have "bitLength (2 ^ Suc k + 1) = Suc (bitLength (2 ^ k))"
    by (subst bitLength.simps) simp
  then show ?case by (simp add: bitLength_pow2)
qed

lemma toDouble_tie: "toDouble (2 ^ 53 + 1) = Fin (2 ^ 53)"
proof -
  define x :: rat where "x = 2 ^ 53 + 1"
  have pos: "0 < x" "x \<noteq> 0" "\<not> x < 0" "\<bar>x\<bar> = x" "1 \<le> x" by (simp_all add: x_def)
  have f: "nat \<lfloor>x\<rfloor> = 2 ^ 53 + 1"
  proof -
    have "\<lfloor>x\<rfloor> = \<lfloor>of_int (2 ^ 53 + 1) :: rat\<rfloor>" by (simp add: x_def)
    also have "\<dots> = 2 ^ 53 + 1" by (simp only: floor_of_int)
    finally show ?thesis by simp
  qed
  have l: "log2floor x = 53"
    unfolding log2floor_def f using bitLength_pow2_plus[of 53] pos by simp
  have m: "max (53::int) (- 1022) = 53" by simp
  have u: "pow2 (53 - 52) = 2" by (simp add: pow2_def)
  have fl: "\<lfloor>x / 2\<rfloor> = 2 ^ 52"
    unfolding x_def by (rule floor_unique) simp_all
  have r: "roundHalfEven (x / 2) = 2 ^ 52"
    unfolding roundHalfEven_def Let_def fl by (simp add: x_def)
  have big: "\<not> (2::rat) ^ 1024 \<le> of_int (2 ^ 52) * 2" by simp
  have "toDouble x = Fin (of_int (2 ^ 52) * 2)"
    unfolding toDouble_def Let_def pos l m u r using big pos by simp
  then show ?thesis by (simp add: x_def)
qed

lemma jsInc_stuck: "jsInc (Fin (2 ^ 53)) = Fin (2 ^ 53)"
  by (simp only: jsInc_def jsnum.case toDouble_tie)

lemma rangeLoop_stuck:
  assumes "rangeLoop i e S = Some r"
  shows "\<not> (jsInc i = i \<and> jsLe i e \<and> i \<in> set S)"
  using assms
proof (induction i e S r rule: rangeLoop.raw_induct[rotated 1, consumes 1, case_names step])
  case (step loop i e S r)
  show ?case
  proof
    assume a: "jsInc i = i \<and> jsLe i e \<and> i \<in> set S"
    then have "setAdd i S = Inr S" by (simp add: setAdd_def)
    with a step(2) have "loop i e S = Some r" by simp
    from step(1)[OF this] a show False by simp
  qed
qed

lemma rangeLoop_never_returns:
  "rangeLoop (Fin (2 ^ 53)) (Fin (2 ^ 53)) [] = None"
proof (rule ccontr)
  define i where "i = Fin (2 ^ 53)"
  have s: "jsInc i = i" and le: "jsLe i i" by (simp_all only: i_def jsInc_stuck) (simp add: jsLe_def)
  assume "rangeLoop (Fin (2 ^ 53)) (Fin (2 ^ 53)) [] \<noteq> None"
  then obtain r where r: "rangeLoop i i [] = Some r" unfolding i_def by blast
  have "rangeLoop i i [] = rangeLoop i i [i]"
    by (subst rangeLoop.simps) (simp add: le setAdd_def setMaxSize_def s)
  with r have "rangeLoop i i [i] = Some r" by simp
  from rangeLoop_stuck[OF this] s le show False by simp
qed

lemma toDouble_pow53: "toDouble (2 ^ 53) = Fin (2 ^ 53)"
proof -
  define x :: rat where "x = 2 ^ 53"
  have pos: "0 < x" "x \<noteq> 0" "\<not> x < 0" "\<bar>x\<bar> = x" "1 \<le> x" by (simp_all add: x_def)
  have f: "nat \<lfloor>x\<rfloor> = 2 ^ 53"
  proof -
    have "\<lfloor>x\<rfloor> = \<lfloor>of_int (2 ^ 53) :: rat\<rfloor>" by (simp add: x_def)
    also have "\<dots> = 2 ^ 53" by (simp only: floor_of_int)
    finally show ?thesis by simp
  qed
  have l: "log2floor x = 53"
    unfolding log2floor_def f using bitLength_pow2[of 53] pos by simp
  have m: "max (53::int) (- 1022) = 53" by simp
  have u: "pow2 (53 - 52) = 2" by (simp add: pow2_def)
  have "x / 2 = of_int (2 ^ 52)" by (simp add: x_def)
  then have r: "roundHalfEven (x / 2) = 2 ^ 52" by (simp only: roundHalfEven_int)
  have big: "\<not> (2::rat) ^ 1024 \<le> of_int (2 ^ 52) * 2" by simp
  have "toDouble x = Fin (of_int (2 ^ 52) * 2)"
    unfolding toDouble_def Let_def pos l m u r using big pos by simp
  then show ?thesis by (simp add: x_def)
qed

lemma Number_pow53: "Number ''9007199254740992'' = Fin (2 ^ 53)"
proof -
  have t: "trim ''9007199254740992'' = ''9007199254740992''"
    by (simp add: trim_def isWhiteSpace_def)
  have d: "isDigits (trim ''9007199254740992'')"
    unfolding t by (simp add: isDigits_def isDigit_def)
  have v: "(of_nat (decimalValue ''9007199254740992'') :: rat) = 2 ^ 53"
    by (simp add: decimalValue_def digitVal_def)
  from Number_digits_toDouble[OF d] show ?thesis
    unfolding t v by (simp only: toDouble_pow53)
qed

lemma applyBulkDeleteAll_never_returns:
  "applyBulkDeleteAll (demo_state\<lparr>deleteInput := ''9007199254740992-9007199254740992''\<rparr>) = None"
proof -
  have t: "trim ''9007199254740992-9007199254740992'' \<noteq> []"
    by (simp add: trim_def isWhiteSpace_def)
  have "parseRanges ''9007199254740992-9007199254740992'' = None"
    by (simp add: parseRanges_def addTerm_def js_includes_def Number_pow53
        rangeLoop_never_returns del: power_numeral)
  with t show ?thesis by (simp add: applyBulkDeleteAll_def)
qed

lemma rangeLoop_fills:
  assumes "distinct S" and "set S = (\<lambda>n. Fin (of_int n)) ` {a..<i}"
    and "i - a \<le> 2 ^ 24" and "a \<le> i" and "i \<le> b + 1"
    and "- (2 ^ 53) < a" and "b < 2 ^ 53 - 1"
  shows "rangeLoop (Fin (of_int i)) (Fin (of_int b)) S
     = Some (if b - a + 1 \<le> 2 ^ 24 then Inr (S @ map (\<lambda>n. Fin (of_int n)) [i..b])
             else Inl RangeError)"
  using assms
proof (induction "nat (b + 1 - i)" arbitrary: i S)
  case 0
  then have i: "i = b + 1" by simp
  then have "\<not> jsLe (Fin (of_int i)) (Fin (of_int b))" by (simp add: jsLe_def)
  then have "rangeLoop (Fin (of_int i)) (Fin (of_int b)) S = Some (Inr S)"
    by (subst rangeLoop.simps) simp
  moreover from i "0.prems"(3) have "b - a + 1 \<le> 2 ^ 24" by simp
  moreover from i have "[i..b] = []" by simp
  ultimately show ?case by simp
next
  case (Suc k)
  then have ib: "i \<le> b" by linarith
  then have le: "jsLe (Fin (of_int i)) (Fin (of_int b))" by (simp add: jsLe_def)
  have inj: "inj_on (\<lambda>n. Fin (of_int n :: rat)) {a..<i}" by (rule inj_onI) simp
  have "length S = card (set S)" using Suc.prems(1) by (simp add: distinct_card)
  also have "\<dots> = card {a..<i}" unfolding Suc.prems(2) using inj by (rule card_image)
  finally have len: "int (length S) = i - a" using Suc.prems(4) by simp
  have notin: "Fin (of_int i) \<notin> set S" unfolding Suc.prems(2) by auto
  have "\<bar>i + 1\<bar> < 2 ^ 53" using Suc.prems ib by linarith
  then have inc: "jsInc (Fin (of_int i)) = Fin (of_int (i + 1))" by (rule jsInc_int)
  show ?case
  proof (cases "i - a < 2 ^ 24")
    case True
    with len have "length S < setMaxSize" by (simp add: setMaxSize_def)
    with notin have add: "setAdd (Fin (of_int i)) S = Inr (S @ [Fin (of_int i)])"
      by (simp add: setAdd_def)
    have step: "rangeLoop (Fin (of_int i)) (Fin (of_int b)) S
        = rangeLoop (Fin (of_int (i + 1))) (Fin (of_int b)) (S @ [Fin (of_int i)])"
      by (subst rangeLoop.simps) (simp only: le if_True add sum.case inc)
    have k: "k = nat (b + 1 - (i + 1))" using Suc.hyps(2) by linarith
    have d: "distinct (S @ [Fin (of_int i)])" using Suc.prems(1) notin by simp
    have s: "set (S @ [Fin (of_int i)]) = (\<lambda>n. Fin (of_int n)) ` {a..<i + 1}"
    proof -
      have "{a..<i + 1} = insert i {a..<i}" using Suc.prems(4) by auto
      then show ?thesis by (simp add: Suc.prems(2))
    qed
    have up: "[i..b] = i # [i + 1..b]" using ib by (simp add: upto_rec1)
    from Suc.hyps(1)[OF k d s] True Suc.prems ib
    have "rangeLoop (Fin (of_int (i + 1))) (Fin (of_int b)) (S @ [Fin (of_int i)])
       = Some (if b - a + 1 \<le> 2 ^ 24
               then Inr ((S @ [Fin (of_int i)]) @ map (\<lambda>n. Fin (of_int n)) [i + 1..b])
               else Inl RangeError)"
      by simp
    with step show ?thesis by (simp add: up)
  next
    case False
    with len have "\<not> length S < setMaxSize" by (simp add: setMaxSize_def)
    with notin have add: "setAdd (Fin (of_int i)) S = Inl RangeError"
      by (simp add: setAdd_def)
    have "rangeLoop (Fin (of_int i)) (Fin (of_int b)) S = Some (Inl RangeError)"
      by (subst rangeLoop.simps) (simp only: le if_True add sum.case)
    moreover from False ib have "\<not> b - a + 1 \<le> 2 ^ 24" by linarith
    ultimately show ?thesis by simp
  qed
qed

lemma rangeLoop_overflow: "rangeLoop (Fin 1) (Fin 16777217) [] = Some (Inl RangeError)"
  using rangeLoop_fills[of "[]" 1 1 16777217] by simp

lemma Number_16777217: "Number ''16777217'' = Fin 16777217"
  using Number_digits[of "''16777217''"]
  by (simp add: trim_def isWhiteSpace_def isDigits_def isDigit_def decimalValue_def digitVal_def)

lemma applyBulkDeleteAll_throws:
  "applyBulkDeleteAll (demo_state\<lparr>deleteInput := ''1-16777217''\<rparr>)
     = Some (demo_state\<lparr>deleteInput := ''1-16777217''\<rparr>, Some RangeError)"
proof -
  have t: "trim ''1-16777217'' \<noteq> []" by (simp add: trim_def isWhiteSpace_def)
  have "parseRanges ''1-16777217'' = Some (Inl RangeError)"
    by (simp add: parseRanges_def addTerm_def js_includes_def Number_1 Number_16777217
        rangeLoop_overflow)
  with t show ?thesis by (simp add: applyBulkDeleteAll_def)
qed

section \<open>Drag reorder\<close>

lemma findIndex_bounds: "- 1 \<le> findIndex P xs \<and> findIndex P xs < int (length xs)"
  by (induction xs) (auto simp: Let_def)

lemma findIndex_absent: "(\<forall>x \<in> set xs. \<not> P x) \<Longrightarrow> findIndex P xs = - 1"
  by (induction xs) (auto simp: Let_def)

lemma findIndex_present:
  "\<exists>x \<in> set xs. P x \<Longrightarrow>
   0 \<le> findIndex P xs \<and> nat (findIndex P xs) < length xs \<and> P (xs ! nat (findIndex P xs))"
proof (induction xs)
  case Nil
  then show ?case by simp
next
  case (Cons x xs)
  show ?case
  proof (cases "P x")
    case True
    then show ?thesis by simp
  next
    case False
    with Cons.prems have "\<exists>x \<in> set xs. P x" by simp
    from Cons.IH[OF this] False show ?thesis
      by (simp add: Let_def nat_add_distrib)
  qed
qed

lemma arrayMove_nat:
  assumes "i < length xs" and "j < length xs"
  shows "arrayMove xs (int i) (int j) =
     Inr (take j (take i xs @ drop (Suc i) xs) @ [xs ! i] @ drop j (take i xs @ drop (Suc i) xs))"
proof -
  have k: "spliceStart (length xs) (int i) = i"
    using assms by (simp add: spliceStart_def)
  have rem: "take 1 (drop i xs) = [xs ! i]"
    using assms by (simp flip: Cons_nth_drop_Suc)
  have "length (take i xs @ drop (Suc i) xs) = length xs - 1"
    using assms by simp
  then have j: "spliceStart (length (take i xs @ drop (Suc i) xs)) (int j) = j"
    using assms by (simp add: spliceStart_def)
  show ?thesis
    using k rem j by (simp add: arrayMove_def Let_def)
qed

lemma moved_nth:
  assumes i: "i < length xs" and j: "j < length xs"
  defines "r \<equiv> take i xs @ drop (Suc i) xs"
  defines "moved \<equiv> take j r @ [xs ! i] @ drop j r"
  shows "length moved = length xs"
    and "moved ! j = xs ! i"
    and "\<And>k. k < length xs \<Longrightarrow> (k < i \<and> k < j) \<or> (i < k \<and> j < k) \<Longrightarrow> moved ! k = xs ! k"
    and "\<And>k. i \<le> k \<Longrightarrow> k < j \<Longrightarrow> moved ! k = xs ! Suc k"
    and "\<And>k. j < k \<Longrightarrow> k \<le> i \<Longrightarrow> moved ! k = xs ! (k - 1)"
proof -
  have lr: "length r = length xs - 1" using i by (simp add: r_def)
  have rn: "\<And>k. k < length xs - 1 \<Longrightarrow> r ! k = (if k < i then xs ! k else xs ! Suc k)"
    using i by (auto simp: r_def nth_append min_def)
  have jl: "j \<le> length r" using j lr by simp
  show "length moved = length xs" using i jl lr by (simp add: moved_def)
  show "moved ! j = xs ! i" using jl by (simp add: moved_def nth_append)
  show "\<And>k. k < length xs \<Longrightarrow> (k < i \<and> k < j) \<or> (i < k \<and> j < k) \<Longrightarrow> moved ! k = xs ! k"
  proof -
    fix k assume k: "k < length xs" and c: "(k < i \<and> k < j) \<or> (i < k \<and> j < k)"
    from c show "moved ! k = xs ! k"
    proof
      assume a: "k < i \<and> k < j"
      then have "moved ! k = r ! k" using jl by (simp add: moved_def nth_append)
      also have "\<dots> = xs ! k"
      proof -
        have "k < length xs - 1" using a j by arith
        from rn[OF this] a show ?thesis by simp
      qed
      finally show ?thesis .
    next
      assume a: "i < k \<and> j < k"
      then have "moved ! k = r ! (k - 1)"
        using jl k lr by (simp add: moved_def nth_append nth_Cons')
      also have "\<dots> = xs ! k"
      proof -
        have b: "k - 1 < length xs - 1" "\<not> k - 1 < i" "Suc (k - 1) = k" using a k by arith+
        from rn[OF b(1)] b(2,3) show ?thesis by simp
      qed
      finally show ?thesis .
    qed
  qed
  show "\<And>k. i \<le> k \<Longrightarrow> k < j \<Longrightarrow> moved ! k = xs ! Suc k"
  proof -
    fix k assume a: "i \<le> k" "k < j"
    then have "moved ! k = r ! k" using jl by (simp add: moved_def nth_append)
    also have "\<dots> = xs ! Suc k"
    proof -
      have b: "k < length xs - 1" "\<not> k < i" using a j by arith+
      from rn[OF b(1)] b(2) show ?thesis by simp
    qed
    finally show "moved ! k = xs ! Suc k" .
  qed
  show "\<And>k. j < k \<Longrightarrow> k \<le> i \<Longrightarrow> moved ! k = xs ! (k - 1)"
  proof -
    fix k assume a: "j < k" "k \<le> i"
    then have "moved ! k = r ! (k - 1)"
      using jl i lr by (simp add: moved_def nth_append nth_Cons')
    also have "\<dots> = xs ! (k - 1)"
    proof -
      have b: "k - 1 < length xs - 1" "k - 1 < i" using a i by arith+
      from rn[OF b(1)] b(2) show ?thesis by simp
    qed
    finally show "moved ! k = xs ! (k - 1)" .
  qed
qed

lemma arrayMove_mset: "arrayMove xs f t = Inr ys \<Longrightarrow> mset ys = mset xs"
proof -
  assume a: "arrayMove xs f t = Inr ys"
  define k where "k = spliceStart (length xs) f"
  define r where "r = take k xs @ drop (k + 1) xs"
  from a have "take 1 (drop k xs) \<noteq> []"
    by (auto simp: arrayMove_def Let_def k_def split: list.splits)
  then have kl: "k < length xs" by (cases "k < length xs") simp_all
  then have rem: "take 1 (drop k xs) = [xs ! k]"
    by (simp flip: Cons_nth_drop_Suc)
  define j where "j = spliceStart (length r) (if t < 0 then int (length xs) + t else t)"
  from a rem have ys: "ys = take j r @ [xs ! k] @ drop j r"
    by (simp add: arrayMove_def Let_def k_def r_def j_def)
  have "mset r + {#xs ! k#} = mset xs"
  proof -
    have "xs = take k xs @ xs ! k # drop (Suc k) xs"
      using kl by (simp add: id_take_nth_drop)
    then have "mset xs = mset (take k xs @ xs ! k # drop (Suc k) xs)" by simp
    then show ?thesis by (simp add: r_def)
  qed
  moreover have "mset ys = mset (take j r) + mset (drop j r) + {#xs ! k#}"
    by (simp add: ys)
  moreover have "mset (take j r) + mset (drop j r) = mset r"
    by (metis append_take_drop_id mset_append)
  ultimately show ?thesis by (simp only:)
qed

lemma arrayMove_succeeds:
  assumes "xs \<noteq> []" and "- 1 \<le> f" and "f < int (length xs)"
  shows "\<exists>ys. arrayMove xs f t = Inr ys"
proof -
  from assms(1) obtain n where "length xs = Suc n" by (cases xs) simp_all
  then have "spliceStart (length xs) f < length xs"
    using assms(2,3) by (simp add: spliceStart_def) arith
  then have "take 1 (drop (spliceStart (length xs) f) xs) \<noteq> []" by simp
  then show ?thesis
    by (auto simp: arrayMove_def Let_def split: list.splits)
qed

lemma onDragEnd_preserves:
  assumes "onDragEnd file event st = Inr st'"
  shows "st' = st\<lparr>previews := previews st'\<rparr>
    \<and> dom (previews st') = dom (previews st)
    \<and> (\<forall>g pv. previews st g = Some pv \<longrightarrow>
          (\<exists>pv'. previews st' g = Some pv' \<and> mset (pages pv') = mset (pages pv)))"
proof (cases "over event")
  case None
  with assms have "st' = st" by (simp add: onDragEnd_def)
  then show ?thesis by simp
next
  case (Some overId)
  show ?thesis
  proof (cases "active event = overId")
    case True
    with Some assms have "st' = st" by (simp add: onDragEnd_def)
    then show ?thesis by simp
  next
    case False
    with Some assms obtain pv0 where pv0: "previews st file = Some pv0"
      by (cases "previews st file") (simp_all add: onDragEnd_def)
    with Some False assms obtain moved where
      mv: "arrayMove (pages pv0) (findIndex (\<lambda>p. id' p = active event) (pages pv0))
             (findIndex (\<lambda>p. id' p = overId) (pages pv0)) = Inr moved"
      and st': "st' = st\<lparr>previews := (previews st)(file \<mapsto> \<lparr>pages = moved\<rparr>)\<rparr>"
      by (auto simp: onDragEnd_def Let_def split: sum.splits)
    from arrayMove_mset[OF mv] have ms: "mset moved = mset (pages pv0)" .
    have "dom (previews st') = dom (previews st)"
      using pv0 by (auto simp: st')
    moreover have "\<forall>g pv. previews st g = Some pv \<longrightarrow>
          (\<exists>pv'. previews st' g = Some pv' \<and> mset (pages pv') = mset (pages pv))"
      using pv0 ms by (simp add: st')
    moreover have "st' = st\<lparr>previews := previews st'\<rparr>" by (simp add: st')
    ultimately show ?thesis by blast
  qed
qed

lemma onDragEnd_succeeds:
  assumes "previews st file = Some pv" and "pages pv \<noteq> []"
  shows "\<exists>st'. onDragEnd file event st = Inr st'"
proof (cases "over event")
  case None
  then show ?thesis by (simp add: onDragEnd_def)
next
  case (Some overId)
  from arrayMove_succeeds[OF assms(2), of "findIndex (\<lambda>p. id' p = active event) (pages pv)"
      "findIndex (\<lambda>p. id' p = overId) (pages pv)"] findIndex_bounds[of "\<lambda>p. id' p = active event" "pages pv"]
  obtain moved where "arrayMove (pages pv) (findIndex (\<lambda>p. id' p = active event) (pages pv))
             (findIndex (\<lambda>p. id' p = overId) (pages pv)) = Inr moved"
    by blast
  with Some assms(1) show ?thesis by (simp add: onDragEnd_def Let_def)
qed

lemma onDragEnds_preserves:
  "onDragEnds evs st = Inr st' \<Longrightarrow>
   st' = st\<lparr>previews := previews st'\<rparr>
    \<and> dom (previews st') = dom (previews st)
    \<and> (\<forall>g pv. previews st g = Some pv \<longrightarrow>
          (\<exists>pv'. previews st' g = Some pv' \<and> mset (pages pv') = mset (pages pv)))"
proof (induction evs arbitrary: st)
  case Nil
  then show ?case by simp
next
  case (Cons fe evs)
  obtain f ev where fe: "fe = (f, ev)" by (cases fe)
  with Cons.prems obtain st1 where s1: "onDragEnd f ev st = Inr st1"
    and s2: "onDragEnds evs st1 = Inr st'"
    by (auto split: sum.splits)
  note a = onDragEnd_preserves[OF s1]
  note b = Cons.IH[OF s2]
  have "st' = st\<lparr>previews := previews st'\<rparr>"
  proof -
    from a have "st1 = st\<lparr>previews := previews st1\<rparr>" by blast
    moreover from b have "st' = st1\<lparr>previews := previews st'\<rparr>" by blast
    ultimately have "st' = st\<lparr>previews := previews st1\<rparr>\<lparr>previews := previews st'\<rparr>" by simp
    then show ?thesis by simp
  qed
  moreover have "dom (previews st') = dom (previews st)" using a b by simp
  moreover have "\<forall>g pv. previews st g = Some pv \<longrightarrow>
          (\<exists>pv'. previews st' g = Some pv' \<and> mset (pages pv') = mset (pages pv))"
  proof (intro allI impI)
    fix g pv assume "previews st g = Some pv"
    with a obtain pv1 where "previews st1 g = Some pv1" "mset (pages pv1) = mset (pages pv)"
      by blast
    moreover with b obtain pv2 where "previews st' g = Some pv2" "mset (pages pv2) = mset (pages pv1)"
      by blast
    ultimately show "\<exists>pv'. previews st' g = Some pv' \<and> mset (pages pv') = mset (pages pv)"
      by simp
  qed
  ultimately show ?case by blast
qed

lemma onDragEnds_succeeds:
  "(\<forall>(f, ev) \<in> set evs. \<exists>pv. previews st f = Some pv \<and> pages pv \<noteq> []) \<Longrightarrow>
   \<exists>st'. onDragEnds evs st = Inr st'"
proof (induction evs arbitrary: st)
  case Nil
  then show ?case by simp
next
  case (Cons fe evs)
  obtain f ev where fe: "fe = (f, ev)" by (cases fe)
  with Cons.prems obtain pv where "previews st f = Some pv" "pages pv \<noteq> []" by auto
  from onDragEnd_succeeds[OF this] obtain st1 where s1: "onDragEnd f ev st = Inr st1" by blast
  note a = onDragEnd_preserves[OF s1]
  have "\<forall>(g, e) \<in> set evs. \<exists>pv. previews st1 g = Some pv \<and> pages pv \<noteq> []"
  proof (intro ballI, clarify)
    fix g e assume "(g, e) \<in> set evs"
    with Cons.prems obtain pv0 where p0: "previews st g = Some pv0" "pages pv0 \<noteq> []" by fastforce
    with a obtain pv1 where p1: "previews st1 g = Some pv1" "mset (pages pv1) = mset (pages pv0)"
      by blast
    from p1(2) p0(2) have "pages pv1 \<noteq> []" by auto
    with p1(1) show "\<exists>pv. previews st1 g = Some pv \<and> pages pv \<noteq> []" by simp
  qed
  from Cons.IH[OF this] obtain st' where "onDragEnds evs st1 = Inr st'" by blast
  with s1 fe show ?case by simp
qed

text \<open>
  C6, as the code has it. \<open>onDragEnd\<close> returns the state unchanged when the event has
  no drop target (\<^verbatim>\<open>over\<close> is \<^verbatim>\<open>null\<close>) or the two ids are equal. When the document
  has an entry, the ids differ and both are ids of descriptors of the document, they
  stand at two different positions \<open>i\<close> (from) and \<open>j\<close> (to), and the new list has
  the same length, has the from-element at position \<open>j\<close>, agrees with the old list
  before and after both positions, and has the elements between them shifted by one:
  to the left when the element moves forward, to the right when it moves backward.
  Nothing of the state but the entry of the document changes.
\<close>

theorem onDragEnd_move:
  "((over event = None \<or> over event = Some (active event)) \<longrightarrow> onDragEnd file event st = Inr st)
   \<and> (\<forall>pv overId.
        previews st file = Some pv \<and> over event = Some overId \<and> active event \<noteq> overId
        \<and> active event \<in> id' ` set (pages pv) \<and> overId \<in> id' ` set (pages pv) \<longrightarrow>
        (\<exists>i j moved.
           findIndex (\<lambda>p. id' p = active event) (pages pv) = int i
           \<and> findIndex (\<lambda>p. id' p = overId) (pages pv) = int j
           \<and> i < length (pages pv) \<and> j < length (pages pv) \<and> i \<noteq> j
           \<and> id' (pages pv ! i) = active event \<and> id' (pages pv ! j) = overId
           \<and> onDragEnd file event st = Inr (st\<lparr>previews := (previews st)(file \<mapsto> \<lparr>pages = moved\<rparr>)\<rparr>)
           \<and> length moved = length (pages pv)
           \<and> moved ! j = pages pv ! i
           \<and> (\<forall>k < length (pages pv). (k < i \<and> k < j) \<or> (i < k \<and> j < k) \<longrightarrow> moved ! k = pages pv ! k)
           \<and> (\<forall>k. i \<le> k \<and> k < j \<longrightarrow> moved ! k = pages pv ! Suc k)
           \<and> (\<forall>k. j < k \<and> k \<le> i \<longrightarrow> moved ! k = pages pv ! (k - 1))))"
proof (intro conjI impI allI)
  assume "over event = None \<or> over event = Some (active event)"
  then show "onDragEnd file event st = Inr st"
    by (auto simp: onDragEnd_def)
next
  fix pv overId
  assume a: "previews st file = Some pv \<and> over event = Some overId \<and> active event \<noteq> overId
        \<and> active event \<in> id' ` set (pages pv) \<and> overId \<in> id' ` set (pages pv)"
  let ?xs = "pages pv"
  define i where "i = nat (findIndex (\<lambda>p. id' p = active event) ?xs)"
  define j where "j = nat (findIndex (\<lambda>p. id' p = overId) ?xs)"
  from a have "\<exists>x \<in> set ?xs. id' x = active event" by auto
  from findIndex_present[OF this]
  have fi: "findIndex (\<lambda>p. id' p = active event) ?xs = int i" "i < length ?xs" "id' (?xs ! i) = active event"
    by (simp_all add: i_def)
  from a have "\<exists>x \<in> set ?xs. id' x = overId" by auto
  from findIndex_present[OF this]
  have fj: "findIndex (\<lambda>p. id' p = overId) ?xs = int j" "j < length ?xs" "id' (?xs ! j) = overId"
    by (simp_all add: j_def)
  from a fi(3) fj(3) have ne: "i \<noteq> j" by auto
  define moved where "moved = take j (take i ?xs @ drop (Suc i) ?xs) @ [?xs ! i]
      @ drop j (take i ?xs @ drop (Suc i) ?xs)"
  have run: "onDragEnd file event st = Inr (st\<lparr>previews := (previews st)(file \<mapsto> \<lparr>pages = moved\<rparr>)\<rparr>)"
    using a fi(1) fj(1) arrayMove_nat[OF fi(2) fj(2)]
    by (simp add: onDragEnd_def Let_def moved_def)
  note m = moved_nth[OF fi(2) fj(2), folded moved_def]
  show "\<exists>i j moved.
           findIndex (\<lambda>p. id' p = active event) (pages pv) = int i
           \<and> findIndex (\<lambda>p. id' p = overId) (pages pv) = int j
           \<and> i < length (pages pv) \<and> j < length (pages pv) \<and> i \<noteq> j
           \<and> id' (pages pv ! i) = active event \<and> id' (pages pv ! j) = overId
           \<and> onDragEnd file event st = Inr (st\<lparr>previews := (previews st)(file \<mapsto> \<lparr>pages = moved\<rparr>)\<rparr>)
           \<and> length moved = length (pages pv)
           \<and> moved ! j = pages pv ! i
           \<and> (\<forall>k < length (pages pv). (k < i \<and> k < j) \<or> (i < k \<and> j < k) \<longrightarrow> moved ! k = pages pv ! k)
           \<and> (\<forall>k. i \<le> k \<and> k < j \<longrightarrow> moved ! k = pages pv ! Suc k)
           \<and> (\<forall>k. j < k \<and> k \<le> i \<longrightarrow> moved ! k = pages pv ! (k - 1))"
    apply (rule exI[of _ i])
    apply (rule exI[of _ j])
    apply (rule exI[of _ moved])
    apply (intro conjI allI impI)
    apply (fact fi fj ne run m(1) m(2))+
    apply (erule m(3), assumption)
    apply (erule conjE, erule m(4), assumption)
    apply (erule conjE, erule m(5), assumption)
    done
qed

text \<open>Page 1 of the session dragged onto page 3, and a drag that ends on no target.\<close>

lemma onDragEnd_demo_forward:
  "onDragEnd ''a.pdf'' \<lparr>active = ''a.pdf-page-1'', over = Some ''a.pdf-page-3''\<rparr> demo_state
     = Inr (demo_state\<lparr>previews := [''a.pdf'' \<mapsto> \<lparr>pages = [demo_p2, demo_p3, demo_p1]\<rparr>]\<rparr>)"
  by (simp add: onDragEnd_def arrayMove_def spliceStart_def Let_def demo_defs)

lemma onDragEnd_demo_no_target:
  "onDragEnd ''a.pdf'' \<lparr>active = ''a.pdf-page-1'', over = None\<rparr> demo_state = Inr demo_state"
  by (simp add: onDragEnd_def)

theorem onDragEnd_move_witness:
  "onDragEnd ''a.pdf'' \<lparr>active = ''a.pdf-page-1'', over = Some ''a.pdf-page-3''\<rparr> demo_state
     = Inr (demo_state\<lparr>previews := [''a.pdf'' \<mapsto> \<lparr>pages = [demo_p2, demo_p3, demo_p1]\<rparr>]\<rparr>)
   \<and> onDragEnd ''a.pdf'' \<lparr>active = ''a.pdf-page-1'', over = None\<rparr> demo_state = Inr demo_state"
proof -
  from onDragEnd_move[of "\<lparr>active = ''a.pdf-page-1'', over = None\<rparr>" "''a.pdf''" demo_state]
  have "onDragEnd ''a.pdf'' \<lparr>active = ''a.pdf-page-1'', over = None\<rparr> demo_state = Inr demo_state"
    by simp
  with onDragEnd_demo_forward show ?thesis by simp
qed

text \<open>
  The claim as stated fails when an id is absent: \<open>findIndex\<close> gives \<open>-1\<close>, which
  \<open>onDragEnd\<close> passes on, and in \<open>arrayMove\<close> a from-index of \<open>-1\<close> removes the
  last element, and a to-index of \<open>-1\<close> inserts at the end. With an active id that
  no descriptor has, the last page moves to the target; with a target id that no
  descriptor has, the dragged page moves to the end.
\<close>

theorem onDragEnd_absent_id_counterexample:
  "''zzz'' \<notin> id' ` set [demo_p1, demo_p2, demo_p3]
   \<and> onDragEnd ''a.pdf'' \<lparr>active = ''zzz'', over = Some ''a.pdf-page-1''\<rparr> demo_state
     = Inr (demo_state\<lparr>previews := [''a.pdf'' \<mapsto> \<lparr>pages = [demo_p3, demo_p1, demo_p2]\<rparr>]\<rparr>)
   \<and> onDragEnd ''a.pdf'' \<lparr>active = ''a.pdf-page-1'', over = Some ''zzz''\<rparr> demo_state
     = Inr (demo_state\<lparr>previews := [''a.pdf'' \<mapsto> \<lparr>pages = [demo_p2, demo_p3, demo_p1]\<rparr>]\<rparr>)
   \<and> [demo_p3, demo_p1, demo_p2] \<noteq> [demo_p1, demo_p2, demo_p3]
   \<and> [demo_p2, demo_p3, demo_p1] \<noteq> [demo_p1, demo_p2, demo_p3]"
  by (simp add: onDragEnd_def arrayMove_def spliceStart_def Let_def demo_defs)

text \<open>
  C5. A sequence of drags, each on a document that has an entry with at least one
  descriptor, runs through; and whenever a sequence of drags runs through, the state
  after has the same documents, every document has the same multiset of descriptors
  as before (so each descriptor keeps its id, its \<open>pageNo\<close>, its thumbnail and its
  \<open>deleted\<close> flag, and only positions change), in particular the same multiset of
  pairs \<open>(pageNo, deleted)\<close>, and nothing but \<^verbatim>\<open>previews\<close> differs from the state
  before.
\<close>

theorem onDragEnds_preserve_descriptors:
  "((\<forall>(f, ev) \<in> set evs. \<exists>pv. previews st f = Some pv \<and> pages pv \<noteq> []) \<longrightarrow>
      (\<exists>st'. onDragEnds evs st = Inr st'))
   \<and> (\<forall>st'. onDragEnds evs st = Inr st' \<longrightarrow>
        st' = st\<lparr>previews := previews st'\<rparr>
        \<and> dom (previews st') = dom (previews st)
        \<and> (\<forall>file pv. previews st file = Some pv \<longrightarrow>
             (\<exists>pv'. previews st' file = Some pv'
                \<and> mset (pages pv') = mset (pages pv)
                \<and> mset (map (\<lambda>p. (pageNo p, deleted p)) (pages pv'))
                    = mset (map (\<lambda>p. (pageNo p, deleted p)) (pages pv)))))"
proof (intro conjI impI allI)
  assume "\<forall>(f, ev) \<in> set evs. \<exists>pv. previews st f = Some pv \<and> pages pv \<noteq> []"
  then show "\<exists>st'. onDragEnds evs st = Inr st'" by (rule onDragEnds_succeeds)
next
  fix st' assume r: "onDragEnds evs st = Inr st'"
  from onDragEnds_preserves[OF r] show "st' = st\<lparr>previews := previews st'\<rparr>" by blast
  from onDragEnds_preserves[OF r] show "dom (previews st') = dom (previews st)" by blast
  fix g pv assume "previews st g = Some pv"
  with onDragEnds_preserves[OF r] obtain pv' where
    p: "previews st' g = Some pv'" "mset (pages pv') = mset (pages pv)" by blast
  from p(2) have "image_mset (\<lambda>p. (pageNo p, deleted p)) (mset (pages pv'))
      = image_mset (\<lambda>p. (pageNo p, deleted p)) (mset (pages pv))" by simp
  then have "mset (map (\<lambda>p. (pageNo p, deleted p)) (pages pv'))
                    = mset (map (\<lambda>p. (pageNo p, deleted p)) (pages pv))" by simp
  with p show "\<exists>pv'. previews st' g = Some pv'
                \<and> mset (pages pv') = mset (pages pv)
                \<and> mset (map (\<lambda>p. (pageNo p, deleted p)) (pages pv'))
                    = mset (map (\<lambda>p. (pageNo p, deleted p)) (pages pv))" by blast
qed

text \<open>
  Two drags on the session with page 2 deleted: page 1 onto page 3, then page 3 onto
  page 2.
\<close>

lemma onDragEnds_demo:
  "onDragEnds [(''a.pdf'', \<lparr>active = ''a.pdf-page-1'', over = Some ''a.pdf-page-3''\<rparr>),
               (''a.pdf'', \<lparr>active = ''a.pdf-page-3'', over = Some ''a.pdf-page-2''\<rparr>)]
     (demo_state\<lparr>previews :=
        [''a.pdf'' \<mapsto> \<lparr>pages = [demo_p1, demo_p2\<lparr>deleted := True\<rparr>, demo_p3]\<rparr>]\<rparr>)
   = Inr (demo_state\<lparr>previews :=
        [''a.pdf'' \<mapsto> \<lparr>pages = [demo_p3, demo_p2\<lparr>deleted := True\<rparr>, demo_p1]\<rparr>]\<rparr>)"
  by (simp add: onDragEnd_def arrayMove_def spliceStart_def Let_def demo_defs)

theorem onDragEnds_preserve_descriptors_witness:
  "onDragEnds [(''a.pdf'', \<lparr>active = ''a.pdf-page-1'', over = Some ''a.pdf-page-3''\<rparr>),
               (''a.pdf'', \<lparr>active = ''a.pdf-page-3'', over = Some ''a.pdf-page-2''\<rparr>)]
     (demo_state\<lparr>previews :=
        [''a.pdf'' \<mapsto> \<lparr>pages = [demo_p1, demo_p2\<lparr>deleted := True\<rparr>, demo_p3]\<rparr>]\<rparr>)
   = Inr (demo_state\<lparr>previews :=
        [''a.pdf'' \<mapsto> \<lparr>pages = [demo_p3, demo_p2\<lparr>deleted := True\<rparr>, demo_p1]\<rparr>]\<rparr>)
   \<and> mset (map (\<lambda>p. (pageNo p, deleted p)) [demo_p3, demo_p2\<lparr>deleted := True\<rparr>, demo_p1])
     = mset (map (\<lambda>p. (pageNo p, deleted p)) [demo_p1, demo_p2\<lparr>deleted := True\<rparr>, demo_p3])"
proof -
  let ?st = "demo_state\<lparr>previews :=
        [''a.pdf'' \<mapsto> \<lparr>pages = [demo_p1, demo_p2\<lparr>deleted := True\<rparr>, demo_p3]\<rparr>]\<rparr>"
  let ?st' = "demo_state\<lparr>previews :=
        [''a.pdf'' \<mapsto> \<lparr>pages = [demo_p3, demo_p2\<lparr>deleted := True\<rparr>, demo_p1]\<rparr>]\<rparr>"
  from onDragEnds_preserve_descriptors[of "[(''a.pdf'', \<lparr>active = ''a.pdf-page-1'', over = Some ''a.pdf-page-3''\<rparr>),
               (''a.pdf'', \<lparr>active = ''a.pdf-page-3'', over = Some ''a.pdf-page-2''\<rparr>)]" ?st]
    onDragEnds_demo
  have "\<forall>file pv. previews ?st file = Some pv \<longrightarrow>
             (\<exists>pv'. previews ?st' file = Some pv'
                \<and> mset (pages pv') = mset (pages pv)
                \<and> mset (map (\<lambda>p. (pageNo p, deleted p)) (pages pv'))
                    = mset (map (\<lambda>p. (pageNo p, deleted p)) (pages pv)))"
    by blast
  from this[rule_format, of "''a.pdf''" "\<lparr>pages = [demo_p1, demo_p2\<lparr>deleted := True\<rparr>, demo_p3]\<rparr>"]
  have "mset (map (\<lambda>p. (pageNo p, deleted p)) [demo_p3, demo_p2\<lparr>deleted := True\<rparr>, demo_p1])
     = mset (map (\<lambda>p. (pageNo p, deleted p)) [demo_p1, demo_p2\<lparr>deleted := True\<rparr>, demo_p3])"
    by simp
  with onDragEnds_demo show ?thesis by simp
qed

section \<open>The busy flag of the export\<close>

text \<open>
  \<^verbatim>\<open>processPDFs\<close> of \<^verbatim>\<open>src/pdf.jsx\<close> ends with \<^verbatim>\<open>loading\<close> false on every path, through
  its \<^verbatim>\<open>finally\<close>, and changes nothing else of the state. The second copy ends
  with \<^verbatim>\<open>loading\<close> true whenever a step of the export throws.
\<close>

lemma processPDFs_clears_loading:
  "fst (processPDFs c st) = st\<lparr>loading := False\<rparr>"
  by (simp add: processPDFs_def Let_def split: prod.splits)

lemma processPDFs_part_000_failure:
  "snd (snd (processPDFs_part_000 c st)) \<noteq> None \<Longrightarrow>
   fst (processPDFs_part_000 c st) = st\<lparr>loading := True\<rparr>"
  by (auto simp: processPDFs_part_000_def Let_def split: prod.splits option.splits)

lemma processPDFs_demo:
  "processPDFs demo_codec demo_state
     = (demo_state\<lparr>loading := False\<rparr>,
        [\<lparr>downloadName = ''processed-pdfs.zip'', blob = [''A'', ''B'', ''C'']\<rparr>], None)"
  by (simp add: processPDFs_def tryBlock_def exportFile_def save_def copyPages_def Let_def demo_defs)

lemma processPDFs_demo_single:
  "processPDFs demo_codec (demo_state\<lparr>downloadMode := Single,
      previews := [''a.pdf'' \<mapsto> \<lparr>pages = [demo_p1, demo_p2\<lparr>deleted := True\<rparr>, demo_p3]\<rparr>]\<rparr>)
     = (demo_state\<lparr>downloadMode := Single,
      previews := [''a.pdf'' \<mapsto> \<lparr>pages = [demo_p1, demo_p2\<lparr>deleted := True\<rparr>, demo_p3]\<rparr>], loading := False\<rparr>,
        [\<lparr>downloadName = ''modified-a.pdf'', blob = [''A'', ''C'']\<rparr>], None)"
  by (simp add: processPDFs_def tryBlock_def exportFile_def save_def copyPages_def Let_def demo_defs)

text \<open>
  C8. On the session, with a codec that rejects the document on loading, the export
  of the second copy (\<^verbatim>\<open>part_000\<close>) ends with the failure and with \<^verbatim>\<open>loading\<close>
  still true, where the export of \<^verbatim>\<open>src/pdf.jsx\<close> ends with the same failure and
  \<^verbatim>\<open>loading\<close> false.
\<close>

theorem processPDFs_part_000_stays_loading:
  "processPDFs_part_000 demo_codec_rejecting demo_state
     = (demo_state\<lparr>loading := True\<rparr>, [], Some CodecError)
   \<and> processPDFs demo_codec_rejecting demo_state
     = (demo_state\<lparr>loading := False\<rparr>, [], Some CodecError)"
  by (simp add: processPDFs_part_000_def processPDFs_def tryBlock_def exportFile_def Let_def demo_defs)


end
